theory Spec2Isabelle
  imports Main "HOL-Library.Sublist"
begin

section \<open>The auto-approval and broadcast bot (auro_request_accept.py)\<close>

text \<open>
  The bot keeps three JSON files (users, channels, broadcasts), a per-operator dictionary
  \<^verbatim>\<open>context.user_data\<close>, and talks to the chat platform. The model threads one record
  through every handler: the contents of the three files, the dictionary, and the list of
  the calls made to the outside world so far (file writes, platform calls, log lines), oldest
  first. Whatever the outside world decides (whether a platform call raises, what the clock
  shows, which cancellation requests arrive while a call is pending) is an argument of the
  handler. Reading and writing the files is taken to succeed, the files hold what the bot
  wrote (records with all their keys), and \<open>session\<close> is the \<^verbatim>\<open>user_data\<close> of the user
  whose update is handled (every update here has a user). A platform call outside a
  \<^verbatim>\<open>try\<close> statement is taken to return, except the reply that creates the progress
  message of a broadcast.
\<close>

subsection \<open>Stored data\<close>

record user =
  user_id :: int
  username :: string
  first_name :: string
  last_name :: string
  join_date :: string
  approved_channels :: "int list"

text \<open>The channel dictionary's keys \<^verbatim>\<open>username\<close> and \<^verbatim>\<open>join_date\<close> carry a prefix here.\<close>

record channel =
  channel_id :: int
  title :: string
  channel_username :: string
  channel_join_date :: string

text \<open>
  The five counters of \<^verbatim>\<open>broadcast_stats\<close>; the loop's local variables of the same names
  are kept in a value of this type as well. A record of broadcasts.json extends it.
\<close>

record counts =
  total_users :: nat
  successful :: nat
  blocked :: nat
  deleted :: nat
  unsuccessful :: nat

record broadcast_run = counts +
  admin_id :: int
  message_type :: string
  sent_date :: string

datatype json_file = USERS_FILE | CHANNELS_FILE | ADMINS_FILE | BROADCASTS_FILE

subsection \<open>The session dictionary and the outside world\<close>

text \<open>A key of \<^verbatim>\<open>context.user_data\<close> that is absent is \<open>None\<close>.\<close>

record user_data =
  awaiting_broadcast :: "bool option"
  broadcast_in_progress :: "bool option"
  broadcast_cancelled :: "bool option"
  broadcast_stats :: "counts option"

text \<open>
  The texts the bot sends, with the values formatted into them. \<open>Txt_progress\<close> carries
  processed, total, percentage, successful and failed; \<open>Txt_completed\<close> the number the
  message calls "users processed".
\<close>

datatype text_msg =
    Txt_start_help
  | Txt_not_authorized
  | Txt_broadcast_prompt
  | Txt_cancelled_partial
  | Txt_preparation_cancelled
  | Txt_no_broadcast_to_cancel
  | Txt_no_stats
  | Txt_stats counts
  | Txt_no_users
  | Txt_starting nat
  | Txt_progress nat nat nat nat nat
  | Txt_completed nat
  | Txt_cancelled_by_admin
  | Txt_approved string
  | Txt_bot_stats_empty nat nat
  | Txt_bot_stats nat nat nat nat nat nat nat nat

datatype content = Text_content | Photo_content | Video_content

datatype log_line =
    Log_approved int int
  | Err_notification int
  | Err_approving int int
  | Err_sending int
  | Err_progress
  | Err_final_progress

text \<open>
  \<open>Edit_progress t b\<close> is \<^verbatim>\<open>progress_msg.edit_text\<close>; \<open>b\<close> says that the
  "Cancel Broadcast" button is attached. \<open>Reply_progress\<close> is the reply that creates the
  progress message, with the button.
\<close>

datatype event =
    Write_json json_file
  | Approve_request int int
  | Notify int text_msg
  | Reply text_msg
  | Reply_progress text_msg
  | Deliver int content
  | Edit_progress text_msg bool
  | Answer_query
  | Edit_query_message text_msg
  | Log log_line

record bot =
  users_json :: "user list"
  channels_json :: "channel list"
  broadcasts_json :: "broadcast_run list"
  session :: user_data
  trace :: "event list"

definition emit :: "event \<Rightarrow> bot \<Rightarrow> bot" where
  "emit e s = s\<lparr>trace := trace s @ [e]\<rparr>"

text \<open>\<^verbatim>\<open>init_data_files\<close> on a fresh directory: every file holds the empty list.\<close>

definition init_data_files :: bot where
  "init_data_files =
     \<lparr>users_json = [], channels_json = [], broadcasts_json = [],
      session = \<lparr>awaiting_broadcast = None, broadcast_in_progress = None,
                 broadcast_cancelled = None, broadcast_stats = None\<rparr>,
      trace = []\<rparr>"

definition ADMIN_IDS :: "int list" where
  "ADMIN_IDS = [1524473035]"

definition write_users :: "user list \<Rightarrow> bot \<Rightarrow> bot" where
  "write_users us s = emit (Write_json USERS_FILE) (s\<lparr>users_json := us\<rparr>)"

definition write_channels :: "channel list \<Rightarrow> bot \<Rightarrow> bot" where
  "write_channels cs s = emit (Write_json CHANNELS_FILE) (s\<lparr>channels_json := cs\<rparr>)"

definition write_broadcasts :: "broadcast_run list \<Rightarrow> bot \<Rightarrow> bot" where
  "write_broadcasts bs s = emit (Write_json BROADCASTS_FILE) (s\<lparr>broadcasts_json := bs\<rparr>)"

subsection \<open>Formatting and strings\<close>

fun digits :: "nat \<Rightarrow> string" where
  "digits n = (if n < 10 then [char_of (48 + n)]
               else digits (n div 10) @ [char_of (48 + n mod 10)])"

definition str_int :: "int \<Rightarrow> string" where
  "str_int i = (if i < 0 then CHR ''-'' # digits (nat (- i)) else digits (nat i))"

text \<open>\<^verbatim>\<open>x or d\<close> on an optional string: \<open>None\<close> and the empty string are false.\<close>

definition py_or :: "string option \<Rightarrow> string \<Rightarrow> string" where
  "py_or x d = (case x of None \<Rightarrow> d | Some v \<Rightarrow> if v = [] then d else v)"

text \<open>
  An error description is a Python \<^verbatim>\<open>str\<close>, here the list of its code points; \<open>ascii\<close>
  gives the code points of a literal.
\<close>

type_synonym pystr = "nat list"

definition ascii :: "string \<Rightarrow> pystr" where
  "ascii s = map of_char s"

text \<open>
  \<^verbatim>\<open>str.lower\<close> goes through the string and puts, for every character, its lower-case
  mapping. For a code point below 128 that is the ASCII rule: A to Z become a to z, the
  rest stays. For the code points from 128 up the mapping comes from the Unicode tables of
  the Python runtime, which are no part of the repository (one character can become
  several, U+212A KELVIN SIGN becomes \<open>k\<close>, and the capital sigma looks at its
  neighbours): it is the parameter \<open>tbl\<close>, which receives the text before the character,
  the character and the text after it.
\<close>

type_synonym case_table = "pystr \<Rightarrow> nat \<Rightarrow> pystr \<Rightarrow> pystr"

definition ascii_lower :: "nat \<Rightarrow> nat" where
  "ascii_lower c = (if 65 \<le> c \<and> c \<le> 90 then c + 32 else c)"

definition lower_at :: "case_table \<Rightarrow> pystr \<Rightarrow> nat \<Rightarrow> pystr \<Rightarrow> pystr" where
  "lower_at tbl before c after = (if c < 128 then [ascii_lower c] else tbl before c after)"

text \<open>The lower-cased form of the piece \<open>seg\<close> of a string, between \<open>before\<close> and \<open>after\<close>.\<close>

fun lower_seg :: "case_table \<Rightarrow> pystr \<Rightarrow> pystr \<Rightarrow> pystr \<Rightarrow> pystr" where
  "lower_seg tbl before [] after = []"
| "lower_seg tbl before (c # cs) after =
     lower_at tbl before c (cs @ after) @ lower_seg tbl (before @ [c]) cs after"

definition lower :: "case_table \<Rightarrow> pystr \<Rightarrow> pystr" where
  "lower tbl s = lower_seg tbl [] s []"

text \<open>\<^verbatim>\<open>sub in s\<close> on strings: \<open>sub\<close> occurs in \<open>s\<close> as a contiguous piece.\<close>

fun contains :: "'a list \<Rightarrow> 'a list \<Rightarrow> bool" where
  "contains sub [] = (sub = [])"
| "contains sub (c # cs) = (prefix sub (c # cs) \<or> contains sub cs)"

subsection \<open>Recording an approval: save\_user\<close>

text \<open>
  The \<^verbatim>\<open>for user in users\<close> loop of \<^verbatim>\<open>save_user\<close>: it stops at the first record with the
  user's id, appends the channel to that record's list unless it is there already, and
  returns \<^verbatim>\<open>user_exists\<close> with the list.
\<close>

fun save_user_loop :: "int \<Rightarrow> int \<Rightarrow> user list \<Rightarrow> bool \<times> user list" where
  "save_user_loop uid cid [] = (False, [])"
| "save_user_loop uid cid (u # us) =
     (if user_id u = uid
      then (True,
            (if cid \<notin> set (approved_channels u)
             then u\<lparr>approved_channels := approved_channels u @ [cid]\<rparr> else u) # us)
      else (case save_user_loop uid cid us of (found, us') \<Rightarrow> (found, u # us')))"

text \<open>
  \<open>now_u\<close> and \<open>now_c\<close> are what \<^verbatim>\<open>str(datetime.datetime.now())\<close> gives at the two places
  it is called.
\<close>

definition save_user ::
  "int \<Rightarrow> string \<Rightarrow> string \<Rightarrow> string \<Rightarrow> int \<Rightarrow> string \<Rightarrow> string \<Rightarrow> string \<Rightarrow> bot \<Rightarrow> bot" where
  "save_user uid uname fname lname cid ctitle now_u now_c s =
     (let (user_exists, users) = save_user_loop uid cid (users_json s);
          users' = (if \<not> user_exists
                    then users @ [\<lparr>user_id = uid, username = uname, first_name = fname,
                                   last_name = lname, join_date = now_u,
                                   approved_channels = [cid]\<rparr>]
                    else users);
          s1 = write_users users' s;
          channels = channels_json s1;
          channel_exists = list_ex (\<lambda>c. channel_id c = cid) channels
      in if \<not> channel_exists
         then write_channels
                (channels @ [\<lparr>channel_id = cid, title = ctitle,
                              channel_username = ''channel_'' @ str_int cid,
                              channel_join_date = now_c\<rparr>]) s1
         else s1)"

subsection \<open>The join-request handler: approve\_user\<close>

record join_request =
  from_user_id :: int
  from_user_username :: "string option"
  from_user_first_name :: "string option"
  from_user_last_name :: "string option"
  chat_id :: int
  chat_title :: "string option"

text \<open>
  \<open>approve_ok\<close>: the platform's approve call returns (it raises otherwise);
  \<open>notify_ok\<close>: the notification to the requester is sent (it raises otherwise).
\<close>

definition approve_user ::
  "join_request \<Rightarrow> bool \<Rightarrow> bool \<Rightarrow> string \<Rightarrow> string \<Rightarrow> bot \<Rightarrow> bot" where
  "approve_user req approve_ok notify_ok now_u now_c s =
     (let uid = from_user_id req;
          uname = py_or (from_user_username req) ''No username'';
          fname = py_or (from_user_first_name req) '''';
          lname = py_or (from_user_last_name req) '''';
          cid = chat_id req;
          ctitle = py_or (chat_title req) (''Channel '' @ str_int cid);
          s1 = emit (Approve_request uid cid) s
      in if \<not> approve_ok then emit (Log (Err_approving uid cid)) s1
         else
           let s2 = emit (Log (Log_approved uid cid)) s1;
               s3 = save_user uid uname fname lname cid ctitle now_u now_c s2;
               s4 = emit (Notify uid (Txt_approved ctitle)) s3
           in if notify_ok then s4 else emit (Log (Err_notification uid)) s4)"

subsection \<open>The percentage of the progress message\<close>

text \<open>
  \<^verbatim>\<open>int((i + 1) / total_users * 100)\<close> is computed in double precision: the quotient of
  the two integers is rounded to the nearest double, the product with 100 is rounded
  again, and \<^verbatim>\<open>int\<close> cuts the fraction off. \<open>round_double p q\<close> is the double nearest to
  the positive fraction \<open>p / q\<close> (ties to the even significand of 53 bits), given as a
  fraction itself; exponent limits play no role for list lengths.
\<close>

fun bit_length :: "nat \<Rightarrow> nat" where
  "bit_length n = (if n = 0 then 0 else Suc (bit_length (n div 2)))"

definition round_double :: "int \<Rightarrow> int \<Rightarrow> int \<times> int" where
  "round_double p q =
     (if p \<le> 0 \<or> q \<le> 0 then (0, 1)
      else
        let e0 = 53 + int (bit_length (nat q)) - int (bit_length (nat p));
            e = (if 2 ^ 53 \<le> (p * 2 ^ nat e0) div (q * 2 ^ nat (- e0)) then e0 - 1 else e0);
            num = p * 2 ^ nat e;
            den = q * 2 ^ nat (- e);
            m0 = num div den;
            r = num mod den;
            m = (if den < 2 * r \<or> (2 * r = den \<and> odd m0) then m0 + 1 else m0)
        in (m * 2 ^ nat (- e), 2 ^ nat e))"

text \<open>The handler reaches this with \<open>n = len(users) \<ge> 1\<close> only.\<close>

definition percentage :: "nat \<Rightarrow> nat \<Rightarrow> nat" where
  "percentage k n =
     (case round_double (int k) (int n) of (a, b) \<Rightarrow>
        (case round_double (a * 100) b of (c, d) \<Rightarrow> nat (c div d)))"

subsection \<open>Commands and buttons\<close>

definition start :: "bot \<Rightarrow> bot" where
  "start s = emit (Reply Txt_start_help) s"

definition broadcast :: "int \<Rightarrow> bot \<Rightarrow> bot" where
  "broadcast actor s =
     (if actor \<notin> set ADMIN_IDS then emit (Reply Txt_not_authorized) s
      else (emit (Reply Txt_broadcast_prompt) s)
             \<lparr>session := (session s)\<lparr>awaiting_broadcast := Some True\<rparr>\<rparr>)"

definition show_broadcast_stats :: "bot \<Rightarrow> bot" where
  "show_broadcast_stats s =
     (case broadcast_stats (session s) of
        None \<Rightarrow> emit (Reply Txt_no_stats) s
      | Some st \<Rightarrow> emit (Reply (Txt_stats st)) s)"

text \<open>
  \<open>actor\<close> is \<^verbatim>\<open>update.effective_user.id\<close>. The two cancellation handlers receive it with
  the update as every handler does; their bodies do not read it.
\<close>

definition cancel_broadcast :: "int \<Rightarrow> bot \<Rightarrow> bot" where
  "cancel_broadcast actor s =
     (if broadcast_in_progress (session s) \<noteq> None
      then show_broadcast_stats
             (emit (Reply Txt_cancelled_partial)
                (s\<lparr>session := (session s)\<lparr>broadcast_cancelled := Some True\<rparr>\<rparr>))
      else if awaiting_broadcast (session s) \<noteq> None
      then emit (Reply Txt_preparation_cancelled)
             (s\<lparr>session := (session s)\<lparr>awaiting_broadcast := None\<rparr>\<rparr>)
      else emit (Reply Txt_no_broadcast_to_cancel) s)"

definition button_handler :: "int \<Rightarrow> string \<Rightarrow> bot \<Rightarrow> bot" where
  "button_handler actor data s =
     (let s1 = emit Answer_query s
      in if data = ''cancel_broadcast''
         then emit (Edit_query_message Txt_cancelled_by_admin)
                (s1\<lparr>session := (session s1)\<lparr>broadcast_cancelled := Some True\<rparr>\<rparr>)
         else s1)"

definition stats :: "int \<Rightarrow> bot \<Rightarrow> bot" where
  "stats actor s =
     (if actor \<notin> set ADMIN_IDS then emit (Reply Txt_not_authorized) s
      else
        let total = length (users_json s);
            total_channels = length (channels_json s);
            broadcasts = broadcasts_json s
        in if broadcasts = [] then emit (Reply (Txt_bot_stats_empty total total_channels)) s
           else emit (Reply (Txt_bot_stats total total_channels (length broadcasts)
                        (sum_list (map total_users broadcasts))
                        (sum_list (map successful broadcasts))
                        (sum_list (map blocked broadcasts))
                        (sum_list (map deleted broadcasts))
                        (sum_list (map unsuccessful broadcasts)))) s)"

subsection \<open>The broadcast run: handle\_broadcast\_message\<close>

text \<open>
  The message to fan out: \<^verbatim>\<open>message.text\<close> (empty when absent), the file ids of
  \<^verbatim>\<open>message.photo\<close> (empty when absent) and the file id of \<^verbatim>\<open>message.video\<close>.
\<close>

record message =
  msg_text :: string
  msg_photo :: "string list"
  msg_video :: "string option"

text \<open>
  A cancellation request of the operator that is handled while the run waits for a
  platform call: the cancel command or a button press with its callback data, of the
  user whose session this is (another user's update meets that user's own
  \<^verbatim>\<open>user_data\<close>). Other updates handled in the middle of a run (a second broadcast) are
  left out.
\<close>

datatype request = Cancel_command | Button_press string

text \<open>\<open>actor\<close> is the user whose session and whose requests these are.\<close>

fun handle_request :: "int \<Rightarrow> request \<Rightarrow> bot \<Rightarrow> bot" where
  "handle_request actor Cancel_command s = cancel_broadcast actor s"
| "handle_request actor (Button_press data) s = button_handler actor data s"

definition handle_requests :: "int \<Rightarrow> request list \<Rightarrow> bot \<Rightarrow> bot" where
  "handle_requests actor rs s = fold (handle_request actor) rs s"

text \<open>
  What the outside world does during one run. \<open>start_reply_ok\<close> says whether the
  reply that creates the progress message returns (it raises otherwise, and the
  handler ends there). \<open>send_error i\<close> is \<open>Some d\<close> when the delivery to the recipient
  at index \<open>i\<close> raises an exception whose \<^verbatim>\<open>str\<close> is \<open>d\<close>; \<open>edit_ok i\<close> says whether
  the progress edit after index \<open>i\<close> returns; \<open>non_ascii_lower\<close> is the case mapping of
  the runtime. The \<open>during\<close> fields list the cancellation requests handled while the
  respective call is pending: \<open>during_send\<close> and \<open>during_edit\<close> have one list per
  recipient index, and an index beyond their length has none. Requests that arrive after
  the loop has been left are not part of a run.
\<close>

record env =
  start_reply_ok :: bool
  during_start :: "request list"
  send_error :: "nat \<Rightarrow> pystr option"
  during_send :: "request list list"
  edit_ok :: "nat \<Rightarrow> bool"
  during_edit :: "request list list"
  final_edit_ok :: bool
  now :: string
  non_ascii_lower :: case_table

definition pending :: "request list list \<Rightarrow> nat \<Rightarrow> request list" where
  "pending rss i = (if i < length rss then rss ! i else [])"

text \<open>
  \<^verbatim>\<open>main\<close> builds the application without concurrent updates and registers every handler
  as a blocking one: an update is handled only after the handler of the one before it has
  returned. In the program, therefore, no request is handled while a run is pending, and
  every \<open>during\<close> list is empty.
\<close>

definition sequential :: "env \<Rightarrow> bool" where
  "sequential ev \<longleftrightarrow>
     during_start ev = [] \<and> list_all (\<lambda>rs. rs = []) (during_send ev) \<and>
     list_all (\<lambda>rs. rs = []) (during_edit ev)"

definition get_cancelled :: "bot \<Rightarrow> bool" where
  "get_cancelled s = (case broadcast_cancelled (session s) of None \<Rightarrow> False | Some b \<Rightarrow> b)"

text \<open>The \<^verbatim>\<open>except\<close> branch of the delivery: the counter chosen by the description.\<close>

definition count_failure :: "case_table \<Rightarrow> pystr \<Rightarrow> counts \<Rightarrow> counts" where
  "count_failure tbl e c =
     (let error_msg = lower tbl e
      in if contains (ascii ''blocked'') error_msg then c\<lparr>blocked := blocked c + 1\<rparr>
         else if contains (ascii ''deleted'') error_msg \<or> contains (ascii ''not found'') error_msg
         then c\<lparr>deleted := deleted c + 1\<rparr>
         else c\<lparr>unsuccessful := unsuccessful c + 1\<rparr>)"

text \<open>Which platform call the \<^verbatim>\<open>if/elif\<close> chain of the delivery makes, if any.\<close>

definition delivery_kind :: "message \<Rightarrow> content option" where
  "delivery_kind m =
     (if msg_text m \<noteq> [] then Some Text_content
      else if msg_photo m \<noteq> [] then Some Photo_content
      else if msg_video m \<noteq> None then Some Video_content
      else None)"

text \<open>
  The \<^verbatim>\<open>try\<close> statement of the loop body for the recipient at index \<open>i\<close>. \<open>actor\<close> is
  the operator whose run this is; the loop needs it only for the requests that are
  handled while it waits.
\<close>

definition deliver :: "env \<Rightarrow> int \<Rightarrow> message \<Rightarrow> nat \<Rightarrow> user \<Rightarrow> counts \<times> bot \<Rightarrow> counts \<times> bot" where
  "deliver ev actor m i u cs =
     (case cs of (c, s) \<Rightarrow>
        (case delivery_kind m of
           None \<Rightarrow> (c\<lparr>successful := successful c + 1\<rparr>, s)
         | Some k \<Rightarrow>
             let s1 = handle_requests actor (pending (during_send ev) i)
                        (emit (Deliver (user_id u) k) s)
             in (case send_error ev i of
                   None \<Rightarrow> (c\<lparr>successful := successful c + 1\<rparr>, s1)
                 | Some e \<Rightarrow>
                     (count_failure (non_ascii_lower ev) e c,
                      emit (Log (Err_sending (user_id u))) s1))))"

text \<open>The progress update of the loop body; \<open>n\<close> is \<^verbatim>\<open>len(users)\<close>.\<close>

definition update_progress :: "env \<Rightarrow> int \<Rightarrow> nat \<Rightarrow> nat \<Rightarrow> counts \<times> bot \<Rightarrow> counts \<times> bot" where
  "update_progress ev actor n i cs =
     (case cs of (c, s) \<Rightarrow>
        if int i mod 10 = 0 \<or> int i = int n - 1
        then
          let s1 = s\<lparr>session := (session s)\<lparr>broadcast_stats := Some c\<rparr>\<rparr>;
              s2 = handle_requests actor (pending (during_edit ev) i)
                     (emit (Edit_progress
                              (Txt_progress (i + 1) (total_users c) (percentage (i + 1) (total_users c))
                                 (successful c) (blocked c + deleted c + unsuccessful c)) True) s1)
          in (c, if edit_ok ev i then s2 else emit (Log Err_progress) s2)
        else (c, s))"

text \<open>
  The \<^verbatim>\<open>for i, user in enumerate(users)\<close> loop, from index \<open>i\<close> over the recipients
  still to come. It returns the number of recipients processed (the index at which it
  stopped), the counters and the state.
\<close>

fun broadcast_loop ::
  "env \<Rightarrow> int \<Rightarrow> message \<Rightarrow> nat \<Rightarrow> nat \<Rightarrow> user list \<Rightarrow> counts \<times> bot \<Rightarrow> nat \<times> counts \<times> bot" where
  "broadcast_loop ev actor m n i [] cs = (i, cs)"
| "broadcast_loop ev actor m n i (u # us) cs =
     (if get_cancelled (snd cs) then (i, cs)
      else broadcast_loop ev actor m n (Suc i) us
             (update_progress ev actor n i (deliver ev actor m i u cs)))"

definition message_type_of :: "message \<Rightarrow> string" where
  "message_type_of m =
     (if msg_photo m \<noteq> [] then ''photo''
      else if msg_video m \<noteq> None then ''video''
      else ''text'')"

text \<open>
  How a call of the handler ends. \<open>Finished p c b\<close>: the loop was left after \<open>p\<close>
  recipients with the counters \<open>c\<close>, and \<open>b\<close> is the cancellation flag as read after
  the loop. \<open>Attribute_error\<close>: \<^verbatim>\<open>update.message\<close> is \<^verbatim>\<open>None\<close> (the filter that \<^verbatim>\<open>main\<close>
  registers lets an edited message through, which has no \<^verbatim>\<open>message\<close>) and the handler
  raises where it first reads an attribute of it.
\<close>

datatype outcome =
    Ignored
  | No_recipients
  | Attribute_error
  | Start_failed
  | Key_error
  | Finished nat counts bool

text \<open>Everything after the loop.\<close>

definition finish_broadcast ::
  "env \<Rightarrow> int \<Rightarrow> message \<Rightarrow> nat \<times> counts \<times> bot \<Rightarrow> outcome \<times> bot" where
  "finish_broadcast ev actor m r =
     (case r of (p, c, s) \<Rightarrow>
        if broadcast_in_progress (session s) = None then (Key_error, s)
        else
          let s1 = s\<lparr>session := (session s)\<lparr>broadcast_in_progress := None\<rparr>\<rparr>;
              cancelled = get_cancelled s1;
              s2 = (if \<not> cancelled
                    then write_broadcasts
                           (broadcasts_json s1 @
                              [\<lparr>total_users = total_users c, successful = successful c,
                                blocked = blocked c, deleted = deleted c,
                                unsuccessful = unsuccessful c, admin_id = actor,
                                message_type = message_type_of m, sent_date = now ev\<rparr>]) s1
                    else s1);
              s3 = emit (Edit_progress (Txt_completed (total_users c)) False) s2;
              s4 = (if final_edit_ok ev then s3 else emit (Log Err_final_progress) s3)
          in (Finished p c cancelled, show_broadcast_stats s4))"

text \<open>\<open>mo\<close> is \<^verbatim>\<open>update.message\<close>.\<close>

definition handle_broadcast_message ::
  "env \<Rightarrow> int \<Rightarrow> message option \<Rightarrow> bot \<Rightarrow> outcome \<times> bot" where
  "handle_broadcast_message ev actor mo s =
     (if \<not> (case awaiting_broadcast (session s) of None \<Rightarrow> False | Some b \<Rightarrow> b)
      then (Ignored, s)
      else if actor \<notin> set ADMIN_IDS then (Ignored, s)
      else
        let s1 = s\<lparr>session := (session s)\<lparr>awaiting_broadcast := None\<rparr>\<rparr>;
            users = users_json s1
        in if users = []
           then (case mo of
                   None \<Rightarrow> (Attribute_error, s1)
                 | Some m \<Rightarrow> (No_recipients, emit (Reply Txt_no_users) s1))
           else
             let n = length users;
                 c0 = \<lparr>total_users = n, successful = 0, blocked = 0, deleted = 0,
                       unsuccessful = 0\<rparr>;
                 s2 = s1\<lparr>session := (session s1)\<lparr>broadcast_stats := Some c0,
                                                   broadcast_in_progress := Some True,
                                                   broadcast_cancelled := Some False\<rparr>\<rparr>
             in (case mo of
                   None \<Rightarrow> (Attribute_error, s2)
                 | Some m \<Rightarrow>
                     let s3 = handle_requests actor (during_start ev)
                                (emit (Reply_progress (Txt_starting n)) s2)
                     in if \<not> start_reply_ok ev then (Start_failed, s3)
                        else finish_broadcast ev actor m
                               (broadcast_loop ev actor m n 0 users (c0, s3))))"

subsection \<open>Notions used in the statements\<close>

text \<open>The calls made to the outside world between the states \<open>s\<close> and \<open>s'\<close>.\<close>

definition new_events :: "bot \<Rightarrow> bot \<Rightarrow> event list" where
  "new_events s s' = drop (length (trace s)) (trace s')"

text \<open>
  The invariant of the two stores: one record per user id, no channel twice in a record's
  approved list, one record per channel id.
\<close>

definition store_inv :: "bot \<Rightarrow> bool" where
  "store_inv s \<longleftrightarrow>
     distinct (map user_id (users_json s)) \<and>
     list_all (\<lambda>u. distinct (approved_channels u)) (users_json s) \<and>
     distinct (map channel_id (channels_json s))"

text \<open>
  \<open>u'\<close> is \<open>u\<close> with the same identity, names and first-seen timestamp; its approved
  list is the old one, or the old one with \<open>cid\<close> appended.
\<close>

definition same_profile :: "int \<Rightarrow> user \<Rightarrow> user \<Rightarrow> bool" where
  "same_profile cid u u' \<longleftrightarrow>
     user_id u' = user_id u \<and> username u' = username u \<and> first_name u' = first_name u \<and>
     last_name u' = last_name u \<and> join_date u' = join_date u \<and>
     (approved_channels u' = approved_channels u \<or>
      approved_channels u' = approved_channels u @ [cid])"

text \<open>
  The Delivery Classifier in the words of the specification (section 4.2): a mapping from
  a lower-cased description to a category, first match wins. It is compared with
  \<open>count_failure\<close>, which is the code.
\<close>

datatype category = Blocked | DeletedAccount | Unsuccessful

definition spec_classifier :: "pystr \<Rightarrow> category" where
  "spec_classifier d =
     (if sublist (ascii ''blocked'') d then Blocked
      else if sublist (ascii ''deleted'') d \<or> sublist (ascii ''not found'') d
      then DeletedAccount
      else Unsuccessful)"

fun count_category :: "category \<Rightarrow> counts \<Rightarrow> counts" where
  "count_category Blocked c = c\<lparr>blocked := blocked c + 1\<rparr>"
| "count_category DeletedAccount c = c\<lparr>deleted := deleted c + 1\<rparr>"
| "count_category Unsuccessful c = c\<lparr>unsuccessful := unsuccessful c + 1\<rparr>"

definition zero_counts :: "nat \<Rightarrow> counts" where
  "zero_counts n =
     \<lparr>total_users = n, successful = 0, blocked = 0, deleted = 0, unsuccessful = 0\<rparr>"

definition accounted :: "counts \<Rightarrow> nat" where
  "accounted c = successful c + blocked c + deleted c + unsuccessful c"

text \<open>The calls a run can make while it is inside the loop.\<close>

fun loop_event :: "event \<Rightarrow> bool" where
  "loop_event (Reply t) = True"
| "loop_event (Deliver u k) = True"
| "loop_event (Edit_progress (Txt_progress p n pc ok ko) b) = b"
| "loop_event Answer_query = True"
| "loop_event (Edit_query_message t) = True"
| "loop_event (Log l) = True"
| "loop_event e = False"

text \<open>
  What every step inside the loop keeps: the three files, the "in progress" key, a
  cancellation flag that is set, and the trace so far.
\<close>

definition run_step :: "bot \<Rightarrow> bot \<Rightarrow> bool" where
  "run_step s s' \<longleftrightarrow>
     users_json s' = users_json s \<and> channels_json s' = channels_json s \<and>
     broadcasts_json s' = broadcasts_json s \<and>
     broadcast_in_progress (session s') = broadcast_in_progress (session s) \<and>
     (get_cancelled s \<longrightarrow> get_cancelled s') \<and>
     (\<exists>evs. trace s' = trace s @ evs \<and> list_all loop_event evs)"

text \<open>
  The state in which a run enters the loop: the preparation key removed, the counters and
  the two flags stored, the progress message sent, and the requests that arrived meanwhile
  handled.
\<close>

definition run_start :: "env \<Rightarrow> int \<Rightarrow> bot \<Rightarrow> bot" where
  "run_start ev actor s =
     handle_requests actor (during_start ev)
       (emit (Reply_progress (Txt_starting (length (users_json s))))
          (s\<lparr>session := (session s)
                \<lparr>awaiting_broadcast := None,
                 broadcast_stats := Some (zero_counts (length (users_json s))),
                 broadcast_in_progress := Some True,
                 broadcast_cancelled := Some False\<rparr>\<rparr>))"

text \<open>The conditions under which a call of the handler with a message reaches the loop.\<close>

definition runs :: "env \<Rightarrow> int \<Rightarrow> bot \<Rightarrow> bool" where
  "runs ev actor s \<longleftrightarrow>
     awaiting_broadcast (session s) = Some True \<and> actor \<in> set ADMIN_IDS \<and>
     users_json s \<noteq> [] \<and> start_reply_ok ev"

text \<open>The record a run appends to broadcasts.json, and the calls it makes after the loop
  up to the final summary.\<close>

definition report :: "env \<Rightarrow> int \<Rightarrow> message \<Rightarrow> counts \<Rightarrow> broadcast_run" where
  "report ev actor m c =
     \<lparr>total_users = total_users c, successful = successful c, blocked = blocked c,
      deleted = deleted c, unsuccessful = unsuccessful c, admin_id = actor,
      message_type = message_type_of m, sent_date = now ev\<rparr>"

definition closing_events :: "env \<Rightarrow> counts \<Rightarrow> bool \<Rightarrow> event list" where
  "closing_events ev c b =
     (if b then [] else [Write_json BROADCASTS_FILE]) @
     Edit_progress (Txt_completed (total_users c)) False #
     (if final_edit_ok ev then [] else [Log Err_final_progress])"


text \<open>A republication of the progress indicator inside the loop.\<close>

fun is_progress :: "event \<Rightarrow> bool" where
  "is_progress (Edit_progress (Txt_progress k n pc ok ko) b) = True"
| "is_progress e = False"

text \<open>The counters after the recipients at the indices below \<open>k\<close>, from the counters \<open>c\<close>.\<close>

fun tally :: "env \<Rightarrow> message \<Rightarrow> nat \<Rightarrow> counts \<Rightarrow> counts" where
  "tally ev m 0 c = c"
| "tally ev m (Suc k) c =
     (let c' = tally ev m k c
      in if delivery_kind m = None then c'\<lparr>successful := successful c' + 1\<rparr>
         else (case send_error ev k of
                 None \<Rightarrow> c'\<lparr>successful := successful c' + 1\<rparr>
               | Some e \<Rightarrow> count_failure (non_ascii_lower ev) e c'))"

text \<open>The progress edit after the recipient at index \<open>j\<close>.\<close>

definition progress_at :: "env \<Rightarrow> message \<Rightarrow> nat \<Rightarrow> nat \<Rightarrow> event" where
  "progress_at ev m n j =
     (let c = tally ev m (Suc j) (zero_counts n)
      in Edit_progress
           (Txt_progress (j + 1) n (percentage (j + 1) n) (successful c)
              (blocked c + deleted c + unsuccessful c)) True)"

text \<open>The trace grows between \<open>s\<close> and \<open>s'\<close>, without a republication.\<close>

definition silent :: "bot \<Rightarrow> bot \<Rightarrow> bool" where
  "silent s s' \<longleftrightarrow> (\<exists>evs. trace s' = trace s @ evs \<and> filter is_progress evs = [])"

subsection \<open>Example data\<close>

definition ann :: user where
  "ann = \<lparr>user_id = 7, username = ''ann'', first_name = ''Ann'', last_name = '''',
          join_date = ''2024-01-01 10:00:00'', approved_channels = [3]\<rparr>"

definition example_store :: bot where
  "example_store =
     init_data_files
       \<lparr>users_json := [ann],
        channels_json := [\<lparr>channel_id = 3, title = ''News'', channel_username = ''channel_3'',
                           channel_join_date = ''2024-01-01 10:00:00''\<rparr>]\<rparr>"

definition example_request :: join_request where
  "example_request =
     \<lparr>from_user_id = 8, from_user_username = None, from_user_first_name = Some ''Bob'',
      from_user_last_name = None, chat_id = 3, chat_title = Some ''News''\<rparr>"

definition admin :: int where "admin = 1524473035"

definition recipient :: "int \<Rightarrow> user" where
  "recipient i = \<lparr>user_id = i, username = ''No username'', first_name = ''R'', last_name = '''',
          join_date = ''2024-01-01 10:00:00'', approved_channels = [3]\<rparr>"

definition ready_store :: "user list \<Rightarrow> bot" where
  "ready_store us = broadcast admin (init_data_files\<lparr>users_json := us\<rparr>)"

definition text_message :: message where
  "text_message = \<lparr>msg_text = ''hello'', msg_photo = [], msg_video = None\<rparr>"

definition photo_message :: message where
  "photo_message = \<lparr>msg_text = [], msg_photo = [''small'', ''large''], msg_video = None\<rparr>"

text \<open>A case table that knows the Kelvin sign and keeps every other character.\<close>

definition kelvin_table :: case_table where
  "kelvin_table before c after = (if c = 8490 then [107] else [c])"

definition quiet_env :: env where
  "quiet_env =
     \<lparr>start_reply_ok = True, during_start = [], send_error = (\<lambda>i. None),
      during_send = [], edit_ok = (\<lambda>i. True), during_edit = [],
      final_edit_ok = True, now = ''2024-02-02 12:00:00'', non_ascii_lower = kelvin_table\<rparr>"

definition blocked_env :: env where
  "blocked_env =
     quiet_env\<lparr>send_error :=
       (\<lambda>i. if i = 1 then Some (ascii ''Forbidden: bot was blocked by the user'') else None)\<rparr>"

text \<open>
  An outside world that is not sequential: the "Cancel Broadcast" button is pressed and
  handled while the first delivery is pending.
\<close>

definition late_cancel_env :: env where
  "late_cancel_env =
     quiet_env\<lparr>during_send := [[Button_press ''cancel_broadcast'']]\<rparr>"

text \<open>
  The session after a finished run, a press of the "Cancel Broadcast" button that is
  handled after it, and a new broadcast request.
\<close>

definition after_late_press :: bot where
  "after_late_press =
     broadcast admin
       (button_handler admin ''cancel_broadcast''
          (snd (handle_broadcast_message quiet_env admin (Some text_message)
                  (ready_store [recipient 8, recipient 9]))))"

text \<open>A store with 300 recipients and a broadcast requested by the operator.\<close>

definition crowd :: bot where
  "crowd = ready_store (map (\<lambda>i. recipient (int i)) [0..<300])"

section \<open>Properties\<close>

subsection \<open>Traces and files under the basic operations\<close>

lemma trace_emit [simp]: "trace (emit e s) = trace s @ [e]"
  and users_emit [simp]: "users_json (emit e s) = users_json s"
  and channels_emit [simp]: "channels_json (emit e s) = channels_json s"
  and broadcasts_emit [simp]: "broadcasts_json (emit e s) = broadcasts_json s"
  and session_emit [simp]: "session (emit e s) = session s"
  by (simp_all add: emit_def)

lemma new_events_append: "trace s' = trace s @ evs \<Longrightarrow> new_events s s' = evs"
  by (simp add: new_events_def)

subsection \<open>The delivery classifier\<close>

lemma contains_sublist: "contains sub s \<longleftrightarrow> sublist sub s"
  by (induction s) (simp_all add: sublist_Cons_right)

lemma lower_seg_append:
  "lower_seg tbl before (xs @ ys) after =
     lower_seg tbl before xs (ys @ after) @ lower_seg tbl (before @ xs) ys after"
  by (induction xs arbitrary: before) simp_all

lemma lower_seg_ascii:
  "list_all (\<lambda>x. x < 128) w \<Longrightarrow> lower_seg tbl before w after = map ascii_lower w"
  by (induction w arbitrary: before) (simp_all add: lower_at_def)

lemma lower_pieces:
  "lower tbl (pre @ w @ suf) =
     lower_seg tbl [] pre (w @ suf) @ lower_seg tbl pre w suf @ lower_seg tbl (pre @ w) suf []"
  by (simp add: lower_def lower_seg_append)

text \<open>
  Claim C2. For every description (any code points) and every case table of the runtime,
  the counter that the \<^verbatim>\<open>except\<close> branch increments is the one of the category that the
  specification's classifier gives for the lower-cased description: Blocked if it
  contains "blocked", otherwise DeletedAccount if it contains "deleted" or "not found",
  otherwise Unsuccessful. A description with a piece \<open>w\<close> that \<^verbatim>\<open>str.lower\<close> turns into
  "blocked" where it stands is counted Blocked whatever stands before and after it; so is,
  in particular, every description with "blocked" spelled in ASCII letters of either case.
\<close>

theorem classify_failure:
  "count_failure tbl e c = count_category (spec_classifier (lower tbl e)) c \<and>
   (lower_seg tbl pre w suf = ascii ''blocked'' \<longrightarrow>
      count_failure tbl (pre @ w @ suf) c = count_category Blocked c) \<and>
   (list_all (\<lambda>x. x < 128) w \<and> map ascii_lower w = ascii ''blocked'' \<longrightarrow>
      count_failure tbl (pre @ w @ suf) c = count_category Blocked c)"
proof -
  have first: "count_failure tbl e c = count_category (spec_classifier (lower tbl e)) c" for e
    by (simp add: count_failure_def spec_classifier_def contains_sublist)
  have piece: "count_failure tbl (pre @ w @ suf) c = count_category Blocked c"
    if "lower_seg tbl pre w suf = ascii ''blocked''"
  proof -
    have "sublist (ascii ''blocked'') (lower tbl (pre @ w @ suf))"
      unfolding lower_pieces that by (rule sublist_appendI)
    then show ?thesis
      by (simp add: first spec_classifier_def)
  qed
  have "count_failure tbl (pre @ w @ suf) c = count_category Blocked c"
    if "list_all (\<lambda>x. x < 128) w \<and> map ascii_lower w = ascii ''blocked''"
    using that piece by (simp add: lower_seg_ascii)
  with first piece show ?thesis by blast
qed

theorem classify_failure_witness:
  "lower_seg kelvin_table (ascii ''deleted '') (ascii ''BLOC'' @ [8490] @ ascii ''ED'')
     (ascii '' not found'') = ascii ''blocked'' \<and>
   count_failure kelvin_table
     (ascii ''deleted '' @ (ascii ''BLOC'' @ [8490] @ ascii ''ED'') @ ascii '' not found'')
     (zero_counts 3) =
     \<lparr>total_users = 3, successful = 0, blocked = 1, deleted = 0, unsuccessful = 0\<rparr> \<and>
   list_all (\<lambda>x. x < 128) (ascii ''BloCKed'') \<and>
   map ascii_lower (ascii ''BloCKed'') = ascii ''blocked'' \<and>
   count_failure kelvin_table
     (ascii ''Chat not found: bot was '' @ ascii ''BloCKed'' @ ascii '' by the user'')
     (zero_counts 3) =
     \<lparr>total_users = 3, successful = 0, blocked = 1, deleted = 0, unsuccessful = 0\<rparr> \<and>
   count_failure kelvin_table (ascii ''Bad Request: chat NOT FOUND'') (zero_counts 3) =
     \<lparr>total_users = 3, successful = 0, blocked = 0, deleted = 1, unsuccessful = 0\<rparr> \<and>
   count_failure kelvin_table (ascii ''Timed out'') (zero_counts 3) =
     \<lparr>total_users = 3, successful = 0, blocked = 0, deleted = 0, unsuccessful = 1\<rparr>"
proof -
  have k: "lower_seg kelvin_table (ascii ''deleted '') (ascii ''BLOC'' @ [8490] @ ascii ''ED'')
             (ascii '' not found'') = ascii ''blocked''"
    by (simp add: ascii_def lower_at_def ascii_lower_def kelvin_table_def)
  have a: "list_all (\<lambda>x. x < 128) (ascii ''BloCKed'') \<and>
           map ascii_lower (ascii ''BloCKed'') = ascii ''blocked''"
    by (simp add: ascii_def ascii_lower_def)
  have d: "count_failure kelvin_table (ascii ''Bad Request: chat NOT FOUND'') (zero_counts 3) =
     \<lparr>total_users = 3, successful = 0, blocked = 0, deleted = 1, unsuccessful = 0\<rparr>"
    by (simp add: count_failure_def lower_def ascii_def lower_at_def ascii_lower_def
        zero_counts_def)
  have u: "count_failure kelvin_table (ascii ''Timed out'') (zero_counts 3) =
     \<lparr>total_users = 3, successful = 0, blocked = 0, deleted = 0, unsuccessful = 1\<rparr>"
    by (simp add: count_failure_def lower_def ascii_def lower_at_def ascii_lower_def
        zero_counts_def)
  from classify_failure [of kelvin_table "[]" "zero_counts 3" "ascii ''deleted ''"
      "ascii ''BLOC'' @ [8490] @ ascii ''ED''" "ascii '' not found''"]
    classify_failure [of kelvin_table "[]" "zero_counts 3" "ascii ''Chat not found: bot was ''"
      "ascii ''BloCKed''" "ascii '' by the user''"] k a d u
  show ?thesis by (simp add: zero_counts_def)
qed

subsection \<open>Recording an approval\<close>

lemma loop_found: "fst (save_user_loop uid cid us) \<longleftrightarrow> uid \<in> user_id ` set us"
  by (induction us) (auto split: prod.splits)

lemma loop_ids: "map user_id (snd (save_user_loop uid cid us)) = map user_id us"
  by (induction us) (auto split: prod.splits)

lemma loop_profiles: "list_all2 (same_profile cid) us (snd (save_user_loop uid cid us))"
  by (induction us) (auto split: prod.splits simp: same_profile_def list_all2_same)

lemma loop_distinct_channels:
  "list_all (\<lambda>u. distinct (approved_channels u)) us \<Longrightarrow>
   list_all (\<lambda>u. distinct (approved_channels u)) (snd (save_user_loop uid cid us))"
  by (induction us) (auto split: prod.splits)

lemma loop_has_channel:
  "uid \<in> user_id ` set us \<Longrightarrow>
   \<exists>u \<in> set (snd (save_user_loop uid cid us)). user_id u = uid \<and> cid \<in> set (approved_channels u)"
  by (induction us) (auto split: prod.splits)

lemma loop_fixpoint:
  "distinct (map user_id us) \<Longrightarrow> u \<in> set us \<Longrightarrow> user_id u = uid \<Longrightarrow>
   cid \<in> set (approved_channels u) \<Longrightarrow> save_user_loop uid cid us = (True, us)"
  by (induction us) (auto split: prod.splits)

lemma save_user_users:
  "users_json (save_user uid un fn ln cid ct t1 t2 s) =
     (if uid \<in> user_id ` set (users_json s) then snd (save_user_loop uid cid (users_json s))
      else snd (save_user_loop uid cid (users_json s)) @
             [\<lparr>user_id = uid, username = un, first_name = fn, last_name = ln, join_date = t1,
               approved_channels = [cid]\<rparr>])"
  using loop_found [of uid cid "users_json s"]
  by (auto simp: save_user_def write_users_def write_channels_def Let_def split: prod.splits)

lemma save_user_channels:
  "channels_json (save_user uid un fn ln cid ct t1 t2 s) =
     (if cid \<in> channel_id ` set (channels_json s) then channels_json s
      else channels_json s @
             [\<lparr>channel_id = cid, title = ct, channel_username = ''channel_'' @ str_int cid,
               channel_join_date = t2\<rparr>])"
  by (auto simp: save_user_def write_users_def write_channels_def Let_def list_ex_iff
      split: prod.splits)

lemma save_user_trace:
  "trace (save_user uid un fn ln cid ct t1 t2 s) =
     trace s @ Write_json USERS_FILE #
       (if cid \<in> channel_id ` set (channels_json s) then [] else [Write_json CHANNELS_FILE])"
  by (auto simp: save_user_def write_users_def write_channels_def Let_def list_ex_iff
      split: prod.splits)

lemma count_distinct_map:
  "distinct (map f xs) \<Longrightarrow> length (filter (\<lambda>x. f x = a) xs) = (if a \<in> f ` set xs then 1 else 0)"
  by (induction xs) (auto simp: image_iff)

lemma count_list_distinct: "distinct xs \<Longrightarrow> x \<in> set xs \<Longrightarrow> count_list xs x = 1"
  by (induction xs) (auto simp: count_list_0_iff)

lemma store_inv_init: "store_inv init_data_files"
  by (simp add: store_inv_def init_data_files_def)

lemma store_inv_save_user:
  assumes "store_inv s"
  shows "store_inv (save_user uid un fn ln cid ct t1 t2 s)"
proof -
  let ?us = "snd (save_user_loop uid cid (users_json s))"
  have "distinct (map user_id ?us)"
    using assms by (simp add: loop_ids store_inv_def)
  moreover have "list_all (\<lambda>u. distinct (approved_channels u)) ?us"
    using assms by (simp add: loop_distinct_channels store_inv_def)
  moreover have "map user_id ?us = map user_id (users_json s)"
    by (rule loop_ids)
  then have "user_id ` set ?us = user_id ` set (users_json s)"
    by (metis set_map)
  ultimately show ?thesis
    using assms
    by (auto simp: store_inv_def save_user_users save_user_channels)
qed

lemma store_inv_emit: "store_inv (emit e s) \<longleftrightarrow> store_inv s"
  by (simp add: store_inv_def)

lemma store_inv_approve_user:
  assumes "store_inv s"
  shows "store_inv (approve_user req approve_ok notify_ok now_u now_c s)"
proof -
  have "store_inv (save_user uid un fn ln cid ct now_u now_c (emit e2 (emit e1 s)))"
    for uid un fn ln cid ct e1 e2
    using assms by (intro store_inv_save_user) (simp add: store_inv_emit)
  then show ?thesis
    using assms by (simp add: approve_user_def Let_def store_inv_emit)
qed

lemma save_user_recorded:
  "\<exists>u \<in> set (users_json (save_user uid un fn ln cid ct t1 t2 s)).
      user_id u = uid \<and> cid \<in> set (approved_channels u)"
  using loop_has_channel [of uid "users_json s" cid]
  by (auto simp: save_user_users)

lemma save_user_channel_recorded:
  "cid \<in> channel_id ` set (channels_json (save_user uid un fn ln cid ct t1 t2 s))"
  by (simp add: save_user_channels)

text \<open>
  Claim C7. From a store that satisfies the invariant (every store the bot builds does, by
  \<open>store_inv_init\<close> and \<open>store_inv_save_user\<close>), two calls of \<^verbatim>\<open>save_user\<close> for the
  same user and channel, whatever the other arguments, leave exactly one record for the
  user, in which the channel occurs exactly once, and exactly one record for the channel;
  the second call changes neither file's content.
\<close>

theorem save_user_idempotent:
  assumes inv: "store_inv s"
    and s1_def: "s1 = save_user uid un fn ln cid ct t1 t2 s"
    and s2_def: "s2 = save_user uid un' fn' ln' cid ct' t3 t4 s1"
  shows "length (filter (\<lambda>u. user_id u = uid) (users_json s2)) = 1 \<and>
         list_all (\<lambda>u. user_id u = uid \<longrightarrow> count_list (approved_channels u) cid = 1)
           (users_json s2) \<and>
         length (filter (\<lambda>c. channel_id c = cid) (channels_json s2)) = 1 \<and>
         users_json s2 = users_json s1 \<and> channels_json s2 = channels_json s1"
proof -
  have inv1: "store_inv s1"
    unfolding s1_def using inv by (rule store_inv_save_user)
  obtain u where u: "u \<in> set (users_json s1)" "user_id u = uid" "cid \<in> set (approved_channels u)"
    unfolding s1_def using save_user_recorded by blast
  have ch: "cid \<in> channel_id ` set (channels_json s1)"
    unfolding s1_def by (rule save_user_channel_recorded)
  have dist: "distinct (map user_id (users_json s1))"
    using inv1 by (simp add: store_inv_def)
  have "save_user_loop uid cid (users_json s1) = (True, users_json s1)"
    using dist u by (rule loop_fixpoint)
  then have users: "users_json s2 = users_json s1"
    using u by (auto simp: s2_def save_user_users)
  have chans: "channels_json s2 = channels_json s1"
    using ch by (simp add: s2_def save_user_channels)
  have one_user: "length (filter (\<lambda>u. user_id u = uid) (users_json s1)) = 1"
    using count_distinct_map [OF dist, of uid] u by auto
  have one_chan: "length (filter (\<lambda>c. channel_id c = cid) (channels_json s1)) = 1"
    using count_distinct_map [of channel_id "channels_json s1" cid] inv1 ch
    by (simp add: store_inv_def)
  have once: "list_all (\<lambda>v. user_id v = uid \<longrightarrow> count_list (approved_channels v) cid = 1)
                (users_json s1)"
    unfolding list_all_iff
  proof (intro ballI impI)
    fix v assume v: "v \<in> set (users_json s1)" "user_id v = uid"
    have "v = u"
      using dist v u by (metis distinct_map inj_onD)
    moreover have "distinct (approved_channels u)"
      using inv1 u(1) by (simp add: store_inv_def list_all_iff)
    ultimately show "count_list (approved_channels v) cid = 1"
      using u(3) by (simp add: count_list_distinct)
  qed
  show ?thesis
    using users chans one_user one_chan once by simp
qed

theorem save_user_idempotent_witness:
  "store_inv example_store \<and>
   users_json (save_user 7 ''ann2'' ''A'' ''B'' 5 ''Chat'' ''t3'' ''t4''
      (save_user 7 ''ann1'' ''A'' ''B'' 5 ''Chat'' ''t1'' ''t2'' example_store)) =
     [ann\<lparr>approved_channels := [3, 5]\<rparr>] \<and>
   length (filter (\<lambda>c. channel_id c = 5)
     (channels_json (save_user 7 ''ann2'' ''A'' ''B'' 5 ''Chat'' ''t3'' ''t4''
        (save_user 7 ''ann1'' ''A'' ''B'' 5 ''Chat'' ''t1'' ''t2'' example_store)))) = 1"
proof -
  have inv: "store_inv example_store"
    by (simp add: store_inv_def example_store_def init_data_files_def ann_def)
  have first: "users_json (save_user 7 ''ann1'' ''A'' ''B'' 5 ''Chat'' ''t1'' ''t2'' example_store)
                 = [ann\<lparr>approved_channels := [3, 5]\<rparr>]"
    by (simp add: save_user_users example_store_def init_data_files_def ann_def)
  from save_user_idempotent [OF inv refl refl, of 7 "''ann2''" "''A''" "''B''" 5 "''Chat''"
      "''t3''" "''t4''" "''ann1''" "''A''" "''B''" "''Chat''" "''t1''" "''t2''"]
  show ?thesis using inv first by auto
qed

text \<open>
  Claim C10. When the user is already in the Recipient Store, \<^verbatim>\<open>save_user\<close> keeps the
  number and order of the records and every record's identity, username, first name, last
  name and first-seen timestamp; an approved list is unchanged or gains the channel at its
  end. When the channel is already in the Channel Store, the content of the Channel Store
  is unchanged and the call does not write channels.json.
\<close>

theorem save_user_frame:
  assumes s'_def: "s' = save_user uid un fn ln cid ct t1 t2 s"
  shows "(uid \<in> user_id ` set (users_json s) \<longrightarrow>
            list_all2 (same_profile cid) (users_json s) (users_json s')) \<and>
         (cid \<in> channel_id ` set (channels_json s) \<longrightarrow>
            channels_json s' = channels_json s \<and>
            Write_json CHANNELS_FILE \<notin> set (new_events s s'))"
  using loop_profiles [of cid "users_json s" uid]
  by (simp add: s'_def save_user_users save_user_channels
      new_events_append [OF save_user_trace])

theorem save_user_frame_witness:
  "7 \<in> user_id ` set (users_json example_store) \<and>
   3 \<in> channel_id ` set (channels_json example_store) \<and>
   users_json (save_user 7 ''other'' ''O'' ''P'' 3 ''Renamed'' ''t1'' ''t2'' example_store) = [ann] \<and>
   channels_json (save_user 7 ''other'' ''O'' ''P'' 3 ''Renamed'' ''t1'' ''t2'' example_store) =
     channels_json example_store \<and>
   Write_json CHANNELS_FILE \<notin>
     set (new_events example_store
            (save_user 7 ''other'' ''O'' ''P'' 3 ''Renamed'' ''t1'' ''t2'' example_store))"
proof -
  have u: "7 \<in> user_id ` set (users_json example_store)"
    and c: "3 \<in> channel_id ` set (channels_json example_store)"
    by (simp_all add: example_store_def init_data_files_def ann_def)
  have us: "users_json (save_user 7 ''other'' ''O'' ''P'' 3 ''Renamed'' ''t1'' ''t2'' example_store)
              = [ann]"
    by (simp add: save_user_users example_store_def init_data_files_def ann_def)
  from save_user_frame [OF refl, of 7 example_store 3 "''other''" "''O''" "''P''" "''Renamed''"
      "''t1''" "''t2''"] u c us
  show ?thesis by simp
qed

subsection \<open>The join-request handler\<close>

text \<open>
  Claim C6. If the approve call fails, both stores are unchanged and the only calls made are
  the approve call and the log line: no file is written and no notification is attempted.
  If it succeeds, both stores are what \<^verbatim>\<open>save_user\<close> makes of them, they hold the
  requester with the channel and the channel, the files are written before the
  notification is attempted, and the notification failing adds a log line and nothing
  else.
\<close>

theorem approve_user_persistence:
  assumes s'_def: "s' = approve_user req approve_ok notify_ok now_u now_c s"
    and uid: "uid = from_user_id req" and cid: "cid = chat_id req"
    and ctitle: "ctitle = py_or (chat_title req) (''Channel '' @ str_int cid)"
    and saved: "saved = save_user uid (py_or (from_user_username req) ''No username'')
                  (py_or (from_user_first_name req) '''') (py_or (from_user_last_name req) '''')
                  cid ctitle now_u now_c s"
  shows "(\<not> approve_ok \<longrightarrow>
            users_json s' = users_json s \<and> channels_json s' = channels_json s \<and>
            new_events s s' = [Approve_request uid cid, Log (Err_approving uid cid)]) \<and>
         (approve_ok \<longrightarrow>
            users_json s' = users_json saved \<and> channels_json s' = channels_json saved \<and>
            (\<exists>u \<in> set (users_json s'). user_id u = uid \<and> cid \<in> set (approved_channels u)) \<and>
            cid \<in> channel_id ` set (channels_json s') \<and>
            new_events s s' =
              [Approve_request uid cid, Log (Log_approved uid cid), Write_json USERS_FILE] @
              (if cid \<in> channel_id ` set (channels_json s) then [] else [Write_json CHANNELS_FILE]) @
              [Notify uid (Txt_approved ctitle)] @
              (if notify_ok then [] else [Log (Err_notification uid)]))"
proof (intro conjI impI)
  assume "\<not> approve_ok"
  then show "users_json s' = users_json s" "channels_json s' = channels_json s"
    "new_events s s' = [Approve_request uid cid, Log (Err_approving uid cid)]"
    by (simp_all add: s'_def approve_user_def Let_def uid cid new_events_def)
next
  assume ok: "approve_ok"
  let ?s2 = "emit (Log (Log_approved uid cid)) (emit (Approve_request uid cid) s)"
  let ?s3 = "save_user uid (py_or (from_user_username req) ''No username'')
                  (py_or (from_user_first_name req) '''') (py_or (from_user_last_name req) '''')
                  cid ctitle now_u now_c ?s2"
  have s': "s' = (if notify_ok then emit (Notify uid (Txt_approved ctitle)) ?s3
                  else emit (Log (Err_notification uid)) (emit (Notify uid (Txt_approved ctitle)) ?s3))"
    using ok by (simp add: s'_def approve_user_def Let_def uid cid ctitle)
  show us: "users_json s' = users_json saved"
    by (simp add: s' saved save_user_users)
  show cs: "channels_json s' = channels_json saved"
    by (simp add: s' saved save_user_channels)
  show "\<exists>u \<in> set (users_json s'). user_id u = uid \<and> cid \<in> set (approved_channels u)"
    unfolding us saved by (rule save_user_recorded)
  show "cid \<in> channel_id ` set (channels_json s')"
    unfolding cs saved by (rule save_user_channel_recorded)
  have "trace s' = trace s @
              [Approve_request uid cid, Log (Log_approved uid cid), Write_json USERS_FILE] @
              (if cid \<in> channel_id ` set (channels_json s) then [] else [Write_json CHANNELS_FILE]) @
              [Notify uid (Txt_approved ctitle)] @
              (if notify_ok then [] else [Log (Err_notification uid)])"
    by (simp add: s' save_user_trace)
  then show "new_events s s' =
              [Approve_request uid cid, Log (Log_approved uid cid), Write_json USERS_FILE] @
              (if cid \<in> channel_id ` set (channels_json s) then [] else [Write_json CHANNELS_FILE]) @
              [Notify uid (Txt_approved ctitle)] @
              (if notify_ok then [] else [Log (Err_notification uid)])"
    by (rule new_events_append)
qed

theorem approve_user_persistence_witness:
  "approve_user example_request False True ''t1'' ''t2'' example_store =
     example_store\<lparr>trace := [Approve_request 8 3, Log (Err_approving 8 3)]\<rparr> \<and>
   users_json (approve_user example_request True False ''t1'' ''t2'' example_store) =
     [ann, \<lparr>user_id = 8, username = ''No username'', first_name = ''Bob'', last_name = '''',
             join_date = ''t1'', approved_channels = [3]\<rparr>] \<and>
   new_events example_store (approve_user example_request True False ''t1'' ''t2'' example_store) =
     [Approve_request 8 3, Log (Log_approved 8 3), Write_json USERS_FILE,
      Notify 8 (Txt_approved ''News''), Log (Err_notification 8)]"
proof -
  have fail: "approve_user example_request False True ''t1'' ''t2'' example_store =
     example_store\<lparr>trace := [Approve_request 8 3, Log (Err_approving 8 3)]\<rparr>"
    by (simp add: approve_user_def example_request_def example_store_def init_data_files_def
        emit_def Let_def)
  have c: "3 \<in> channel_id ` set (channels_json example_store)"
    by (simp add: example_store_def init_data_files_def)
  have t: "py_or (chat_title example_request) (''Channel '' @ str_int 3) = ''News''"
    by (simp add: py_or_def example_request_def)
  have us: "users_json (save_user 8 ''No username'' ''Bob'' '''' 3 ''News'' ''t1'' ''t2'' example_store)
     = [ann, \<lparr>user_id = 8, username = ''No username'', first_name = ''Bob'', last_name = '''',
             join_date = ''t1'', approved_channels = [3]\<rparr>]"
    by (simp add: save_user_users example_store_def init_data_files_def ann_def)
  from approve_user_persistence [OF refl refl refl refl refl, where req = example_request
      and approve_ok = True and notify_ok = False and now_u = "''t1''" and now_c = "''t2''"
      and s = example_store]
  show ?thesis using fail c t us
    by (simp add: example_request_def py_or_def)
qed

subsection \<open>The broadcast run\<close>

lemma get_cancelled_emit [simp]: "get_cancelled (emit e s) = get_cancelled s"
  by (simp add: get_cancelled_def)

lemma run_step_refl [simp]: "run_step s s"
  by (simp add: run_step_def)

lemma run_step_trans:
  assumes "run_step s s1" and "run_step s1 s2"
  shows "run_step s s2"
proof -
  obtain e1 where e1: "trace s1 = trace s @ e1" "list_all loop_event e1"
    using assms(1) by (auto simp: run_step_def)
  obtain e2 where e2: "trace s2 = trace s1 @ e2" "list_all loop_event e2"
    using assms(2) by (auto simp: run_step_def)
  have "trace s2 = trace s @ (e1 @ e2) \<and> list_all loop_event (e1 @ e2)"
    using e1 e2 by simp
  then have "\<exists>evs. trace s2 = trace s @ evs \<and> list_all loop_event evs"
    by blast
  moreover have "users_json s2 = users_json s" "channels_json s2 = channels_json s"
    "broadcasts_json s2 = broadcasts_json s"
    "broadcast_in_progress (session s2) = broadcast_in_progress (session s)"
    "get_cancelled s \<longrightarrow> get_cancelled s2"
    using assms by (simp_all add: run_step_def)
  ultimately show ?thesis
    unfolding run_step_def by blast
qed

lemma run_step_emit: "loop_event e \<Longrightarrow> run_step s (emit e s)"
  by (simp add: run_step_def)

lemma run_step_stats:
  "run_step s (s\<lparr>session := (session s)\<lparr>broadcast_stats := x\<rparr>\<rparr>)"
  by (simp add: run_step_def get_cancelled_def)

lemma run_step_show: "run_step s (show_broadcast_stats s)"
  by (simp add: show_broadcast_stats_def run_step_emit split: option.splits)

lemma run_step_cancel: "run_step s (cancel_broadcast actor s)"
  by (auto simp: cancel_broadcast_def show_broadcast_stats_def run_step_def get_cancelled_def
      split: option.splits)

lemma run_step_button: "run_step s (button_handler actor data s)"
  by (auto simp: button_handler_def run_step_def get_cancelled_def Let_def)

lemma run_step_request: "run_step s (handle_request actor r s)"
  by (cases r) (simp_all add: run_step_cancel run_step_button)

lemma run_step_requests: "run_step s (handle_requests actor rs s)"
  unfolding handle_requests_def
proof (induction rs arbitrary: s)
  case Nil
  show ?case by simp
next
  case (Cons r rs)
  have "run_step s (handle_request actor r s)" by (rule run_step_request)
  moreover have "run_step (handle_request actor r s)
                   (fold (handle_request actor) rs (handle_request actor r s))"
    by (rule Cons.IH)
  ultimately show ?case by (simp add: run_step_trans)
qed

lemma accounted_count_failure:
  "accounted (count_failure tbl e c) = Suc (accounted c) \<and>
   total_users (count_failure tbl e c) = total_users c"
  by (simp add: count_failure_def accounted_def Let_def)

lemma deliver_step:
  assumes "deliver ev actor m i u (c, s) = (c1, s1)"
  shows "run_step s s1 \<and> accounted c1 = Suc (accounted c) \<and> total_users c1 = total_users c"
proof (cases "delivery_kind m")
  case None
  with assms show ?thesis by (auto simp: deliver_def accounted_def)
next
  case (Some k)
  let ?s = "handle_requests actor (pending (during_send ev) i) (emit (Deliver (user_id u) k) s)"
  have step: "run_step s ?s"
    by (rule run_step_trans [OF run_step_emit run_step_requests]) simp
  show ?thesis
  proof (cases "send_error ev i")
    case None
    with Some assms step show ?thesis by (auto simp: deliver_def accounted_def Let_def)
  next
    case (Some e)
    have "run_step s (emit (Log (Err_sending (user_id u))) ?s)"
      by (rule run_step_trans [OF step run_step_emit]) simp
    with Some \<open>delivery_kind m = Some k\<close> assms show ?thesis
      by (auto simp: deliver_def Let_def accounted_count_failure)
  qed
qed

lemma progress_step:
  assumes "update_progress ev actor n i (c, s) = (c1, s1)"
  shows "c1 = c \<and> run_step s s1"
proof (cases "int i mod 10 = 0 \<or> int i = int n - 1")
  case False
  with assms show ?thesis by (auto simp: update_progress_def)
next
  case True
  let ?e = "Edit_progress (Txt_progress (i + 1) (total_users c) (percentage (i + 1) (total_users c))
              (successful c) (blocked c + deleted c + unsuccessful c)) True"
  let ?s1 = "s\<lparr>session := (session s)\<lparr>broadcast_stats := Some c\<rparr>\<rparr>"
  let ?s2 = "handle_requests actor (pending (during_edit ev) i) (emit ?e ?s1)"
  have "run_step s ?s1" by (rule run_step_stats)
  moreover have "run_step ?s1 (emit ?e ?s1)" by (rule run_step_emit) simp
  moreover have "run_step (emit ?e ?s1) ?s2" by (rule run_step_requests)
  ultimately have s2: "run_step s ?s2" by (blast intro: run_step_trans)
  then have "run_step s (emit (Log Err_progress) ?s2)"
    by (rule run_step_trans) (simp add: run_step_emit)
  with s2 True assms show ?thesis
    by (auto simp: update_progress_def Let_def split: if_splits)
qed

lemma body_step:
  assumes "update_progress ev actor n i (deliver ev actor m i u (c, s)) = (c1, s1)"
  shows "run_step s s1 \<and> accounted c1 = Suc (accounted c) \<and> total_users c1 = total_users c"
proof -
  obtain c0 s0 where d: "deliver ev actor m i u (c, s) = (c0, s0)" by (cases "deliver ev actor m i u (c, s)")
  from deliver_step [OF d] progress_step [of ev actor n i c0 s0 c1 s1] assms d
  show ?thesis by (auto intro: run_step_trans)
qed

lemma loop_step:
  "broadcast_loop ev actor m n i us (c, s) = (p, c', s') \<Longrightarrow>
   run_step s s' \<and> accounted c' + i = accounted c + p \<and> i \<le> p \<and> p \<le> i + length us \<and>
   (p < i + length us \<longrightarrow> get_cancelled s') \<and> total_users c' = total_users c"
proof (induction us arbitrary: i c s)
  case Nil
  then show ?case by simp
next
  case (Cons u us)
  show ?case
  proof (cases "get_cancelled s")
    case True
    with Cons.prems show ?thesis by auto
  next
    case False
    obtain c1 s1 where b: "update_progress ev actor n i (deliver ev actor m i u (c, s)) = (c1, s1)"
      by (cases "update_progress ev actor n i (deliver ev actor m i u (c, s))")
    with False Cons.prems have "broadcast_loop ev actor m n (Suc i) us (c1, s1) = (p, c', s')"
      by simp
    from Cons.IH [OF this] body_step [OF b] show ?thesis
      by (auto intro: run_step_trans)
  qed
qed

lemma get_cancelled_in_progress [simp]:
  "get_cancelled (s\<lparr>session := (session s)\<lparr>broadcast_in_progress := x\<rparr>\<rparr>) = get_cancelled s"
  by (simp add: get_cancelled_def)

lemma loop_event_not_write: "list_all loop_event evs \<Longrightarrow> count_list evs (Write_json f) = 0"
  by (auto simp: count_list_0_iff list_all_iff)



lemma handle_unfold:
  assumes "runs ev actor s"
  shows "handle_broadcast_message ev actor (Some m) s =
     finish_broadcast ev actor m
       (broadcast_loop ev actor m (length (users_json s)) 0 (users_json s)
          (zero_counts (length (users_json s)), run_start ev actor s))"
  using assms
  by (simp add: handle_broadcast_message_def runs_def run_start_def zero_counts_def Let_def)

lemma handle_finished_runs:
  assumes "handle_broadcast_message ev actor mo s = (Finished p c b, s')"
  shows "runs ev actor s \<and> (\<exists>m. mo = Some m)"
  using assms
  by (auto simp: handle_broadcast_message_def runs_def Let_def finish_broadcast_def
      split: if_splits option.splits prod.splits)

lemma start_props:
  "broadcast_in_progress (session (run_start ev actor s)) = Some True \<and>
   broadcasts_json (run_start ev actor s) = broadcasts_json s \<and>
   (\<exists>evs. trace (run_start ev actor s) =
             trace s @ Reply_progress (Txt_starting (length (users_json s))) # evs \<and>
          list_all loop_event evs)"
proof -
  let ?s2 = "s\<lparr>session := (session s)
                \<lparr>awaiting_broadcast := None,
                 broadcast_stats := Some (zero_counts (length (users_json s))),
                 broadcast_in_progress := Some True,
                 broadcast_cancelled := Some False\<rparr>\<rparr>"
  let ?s3 = "emit (Reply_progress (Txt_starting (length (users_json s)))) ?s2"
  have "run_step ?s3 (run_start ev actor s)"
    unfolding run_start_def by (rule run_step_requests)
  then show ?thesis
    by (auto simp: run_step_def)
qed

lemma finish_props:
  assumes "broadcast_in_progress (session s4) \<noteq> None"
  shows "\<exists>t s'. finish_broadcast ev actor m (p, c, s4) = (Finished p c (get_cancelled s4), s') \<and>
           trace s' = trace s4 @ closing_events ev c (get_cancelled s4) @ [Reply t] \<and>
           broadcasts_json s' =
             (if get_cancelled s4 then broadcasts_json s4
              else broadcasts_json s4 @ [report ev actor m c])"
  using assms
  by (auto simp: finish_broadcast_def Let_def show_broadcast_stats_def write_broadcasts_def
      closing_events_def report_def split: option.splits)

lemma run_summary:
  assumes "runs ev actor s"
  shows "\<exists>p c b s' evs t.
           handle_broadcast_message ev actor (Some m) s = (Finished p c b, s') \<and>
           accounted c = p \<and> p \<le> length (users_json s) \<and>
           (\<not> b \<longrightarrow> p = length (users_json s)) \<and>
           total_users c = length (users_json s) \<and>
           list_all loop_event evs \<and>
           trace s' = trace s @ Reply_progress (Txt_starting (length (users_json s))) # evs @
                        closing_events ev c b @ [Reply t] \<and>
           broadcasts_json s' =
             (if b then broadcasts_json s else broadcasts_json s @ [report ev actor m c])"
proof -
  let ?n = "length (users_json s)"
  obtain p c s4 where loop:
    "broadcast_loop ev actor m ?n 0 (users_json s) (zero_counts ?n, run_start ev actor s) = (p, c, s4)"
    by (metis prod_cases3)
  note st = loop_step [OF loop]
  obtain e0 where e0: "trace (run_start ev actor s) = trace s @ Reply_progress (Txt_starting ?n) # e0"
    "list_all loop_event e0"
    using start_props [of ev actor s] by blast
  obtain e1 where e1: "trace s4 = trace (run_start ev actor s) @ e1" "list_all loop_event e1"
    using st by (auto simp: run_step_def)
  have inprog: "broadcast_in_progress (session s4) \<noteq> None"
    using st start_props [of ev actor s] by (simp add: run_step_def)
  have bc: "broadcasts_json s4 = broadcasts_json s"
    using st start_props [of ev actor s] by (simp add: run_step_def)
  obtain t s' where fin:
    "finish_broadcast ev actor m (p, c, s4) = (Finished p c (get_cancelled s4), s')"
    "trace s' = trace s4 @ closing_events ev c (get_cancelled s4) @ [Reply t]"
    "broadcasts_json s' =
       (if get_cancelled s4 then broadcasts_json s4 else broadcasts_json s4 @ [report ev actor m c])"
    using finish_props [OF inprog] by blast
  have "handle_broadcast_message ev actor (Some m) s = (Finished p c (get_cancelled s4), s')"
    using handle_unfold [OF assms] loop fin(1) by simp
  moreover have "accounted c = p" "p \<le> ?n" "\<not> get_cancelled s4 \<longrightarrow> p = ?n" "total_users c = ?n"
    using st by (auto simp: accounted_def zero_counts_def)
  moreover have "list_all loop_event (e0 @ e1)"
    using e0 e1 by simp
  moreover have "trace s' = trace s @ Reply_progress (Txt_starting ?n) # (e0 @ e1) @
                   closing_events ev c (get_cancelled s4) @ [Reply t]"
    using fin(2) e0 e1 by simp
  moreover have "broadcasts_json s' =
       (if get_cancelled s4 then broadcasts_json s else broadcasts_json s @ [report ev actor m c])"
    using fin(3) bc by simp
  ultimately show ?thesis by blast
qed


subsection \<open>Runs under the sequential dispatch\<close>

lemma sequential_pending:
  assumes "sequential ev"
  shows "during_start ev = []" and "pending (during_send ev) i = []"
    and "pending (during_edit ev) i = []"
  using assms by (auto simp: sequential_def pending_def list_all_length)

lemma deliver_quiet:
  assumes "pending (during_send ev) i = []" and "deliver ev actor m i u (c, s) = (c1, s1)"
  shows "get_cancelled s1 = get_cancelled s"
  using assms
  by (auto simp: deliver_def handle_requests_def Let_def split: option.splits)

lemma progress_quiet:
  assumes "pending (during_edit ev) i = []" and "update_progress ev actor n i (c, s) = (c1, s1)"
  shows "get_cancelled s1 = get_cancelled s"
  using assms
  by (auto simp: update_progress_def handle_requests_def Let_def get_cancelled_def
      split: if_splits)

lemma loop_quiet:
  assumes "sequential ev"
    and "\<not> get_cancelled s"
    and "broadcast_loop ev actor m n i us (c, s) = (p, c', s')"
  shows "\<not> get_cancelled s'"
  using assms(2,3)
proof (induction us arbitrary: i c s)
  case Nil
  then show ?case by auto
next
  case (Cons u us)
  obtain c1 s1 where d: "deliver ev actor m i u (c, s) = (c1, s1)"
    by (cases "deliver ev actor m i u (c, s)")
  obtain c2 s2 where u: "update_progress ev actor n i (c1, s1) = (c2, s2)"
    by (cases "update_progress ev actor n i (c1, s1)")
  have "\<not> get_cancelled s2"
    using deliver_quiet [OF sequential_pending(2) [OF assms(1)] d]
      progress_quiet [OF sequential_pending(3) [OF assms(1)] u] Cons.prems(1) by simp
  moreover have "broadcast_loop ev actor m n (Suc i) us (c2, s2) = (p, c', s')"
    using Cons.prems d u by simp
  ultimately show ?case by (rule Cons.IH)
qed

text \<open>A run during which no cancellation request is handled processes every recipient.\<close>

lemma quiet_run_completes:
  assumes "runs ev actor s" and "sequential ev"
  shows "\<exists>c s'. handle_broadcast_message ev actor (Some m) s =
                  (Finished (length (users_json s)) c False, s')"
proof -
  let ?n = "length (users_json s)"
  have start: "\<not> get_cancelled (run_start ev actor s)"
    using sequential_pending(1) [OF assms(2)]
    by (simp add: run_start_def handle_requests_def get_cancelled_def)
  obtain p c s4 where loop:
    "broadcast_loop ev actor m ?n 0 (users_json s) (zero_counts ?n, run_start ev actor s) = (p, c, s4)"
    by (metis prod_cases3)
  have nc: "\<not> get_cancelled s4"
    using loop_quiet [OF assms(2) start loop] .
  have "broadcast_in_progress (session s4) \<noteq> None"
    using loop_step [OF loop] start_props [of ev actor s] by (simp add: run_step_def)
  from finish_props [OF this] obtain s' where
    "finish_broadcast ev actor m (p, c, s4) = (Finished p c (get_cancelled s4), s')"
    by blast
  then have "handle_broadcast_message ev actor (Some m) s = (Finished p c False, s')"
    using handle_unfold [OF assms(1)] loop nc by simp
  moreover have "p = ?n"
    using loop_step [OF loop] nc by auto
  ultimately show ?thesis by blast
qed

lemma sequential_run:
  assumes "sequential ev"
    and "handle_broadcast_message ev actor mo s = (Finished p c b, s')"
  shows "\<not> b \<and> p = length (users_json s)"
proof -
  obtain m where "runs ev actor s" "mo = Some m"
    using handle_finished_runs [OF assms(2)] by blast
  with quiet_run_completes [OF this(1) assms(1), of m] assms(2) show ?thesis by auto
qed

subsection \<open>Concrete runs\<close>

lemmas eval_defs =
  handle_broadcast_message_def finish_broadcast_def deliver_def update_progress_def
  handle_requests_def cancel_broadcast_def button_handler_def show_broadcast_stats_def
  get_cancelled_def delivery_kind_def message_type_of_def write_broadcasts_def emit_def
  broadcast_def ADMIN_IDS_def init_data_files_def pending_def Let_def

lemmas lower_defs =
  count_failure_def lower_def lower_at_def ascii_lower_def ascii_def kelvin_table_def

lemma sequential_quiet: "sequential quiet_env" and sequential_blocked: "sequential blocked_env"
  by (simp_all add: sequential_def quiet_env_def blocked_env_def)

lemma pct_1_2: "percentage 1 2 = 50"
  by (simp add: percentage_def round_double_def Let_def)

lemma pct_1_2_Suc: "percentage (Suc 0) (Suc (Suc 0)) = 50"
  using pct_1_2 by (simp add: numeral_2_eq_2)

subsection \<open>The counters, the report and the terminal message\<close>

text \<open>
  Claim C1. When a run leaves the loop, the four counters add up to the number of
  recipients processed, that number is at most the length of the recipient list read at
  the start, and it equals that length whenever the cancellation flag is not set after the
  loop. Under the sequential dispatch of the program no cancellation is handled during a
  run: the flag is then unset after the loop and every recipient has been processed, so
  the number processed equals the total exactly when the run was not cancelled.
\<close>

theorem run_counts:
  assumes "handle_broadcast_message ev actor mo s = (Finished p c b, s')"
  shows "successful c + blocked c + deleted c + unsuccessful c = p \<and>
         p \<le> length (users_json s) \<and>
         (\<not> b \<longrightarrow> p = length (users_json s)) \<and>
         (sequential ev \<longrightarrow> \<not> b \<and> (p = length (users_json s) \<longleftrightarrow> \<not> b))"
proof -
  obtain m where r: "runs ev actor s" and m: "mo = Some m"
    using handle_finished_runs [OF assms] by blast
  from run_summary [OF r, of m] assms m
  have "accounted c = p" "p \<le> length (users_json s)" "\<not> b \<longrightarrow> p = length (users_json s)"
    by auto
  moreover have "\<not> b \<and> p = length (users_json s)" if "sequential ev"
    using sequential_run [OF that assms] .
  ultimately show ?thesis
    by (auto simp: accounted_def)
qed

theorem run_counts_witness:
  "sequential blocked_env \<and>
   fst (handle_broadcast_message blocked_env admin (Some text_message)
          (ready_store [recipient 8, recipient 9, recipient 10])) =
     Finished 3 \<lparr>total_users = 3, successful = 2, blocked = 1, deleted = 0, unsuccessful = 0\<rparr> False \<and>
   length (users_json (ready_store [recipient 8, recipient 9, recipient 10])) = 3"
proof -
  let ?r = "handle_broadcast_message blocked_env admin (Some text_message)
              (ready_store [recipient 8, recipient 9, recipient 10])"
  have out: "fst ?r =
     Finished 3 \<lparr>total_users = 3, successful = 2, blocked = 1, deleted = 0, unsuccessful = 0\<rparr> False"
    by (simp add: eval_defs lower_defs blocked_env_def quiet_env_def admin_def text_message_def
        ready_store_def recipient_def)
  then have "?r = (Finished 3 \<lparr>total_users = 3, successful = 2, blocked = 1, deleted = 0,
                     unsuccessful = 0\<rparr> False, snd ?r)"
    by (metis prod.collapse)
  from run_counts [OF this] out sequential_blocked show ?thesis by simp
qed

text \<open>
  Claim C3. A run that leaves the loop with the cancellation flag unset appends one record
  to broadcasts.json and writes the file once. The record holds the operator, the content
  kind ("photo" for a message with a photo, else "video" for one with a video, else
  "text"), the timestamp, the total and the four final counters. A run that leaves the
  loop with the flag set leaves the content of broadcasts.json as it was and never writes
  the file.
\<close>

theorem report_written:
  assumes "handle_broadcast_message ev actor (Some m) s = (Finished p c b, s')"
  shows "broadcasts_json s' =
           (if b then broadcasts_json s
            else broadcasts_json s @
                   [\<lparr>total_users = length (users_json s), successful = successful c,
                     blocked = blocked c, deleted = deleted c, unsuccessful = unsuccessful c,
                     admin_id = actor,
                     message_type = (if msg_photo m \<noteq> [] then ''photo''
                                     else if msg_video m \<noteq> None then ''video''
                                     else ''text''),
                     sent_date = now ev\<rparr>]) \<and>
         count_list (new_events s s') (Write_json BROADCASTS_FILE) = (if b then 0 else 1)"
proof -
  have r: "runs ev actor s"
    using handle_finished_runs [OF assms] by blast
  obtain evs t where tot: "total_users c = length (users_json s)"
    and evs: "list_all loop_event evs"
    and tr: "trace s' = trace s @ Reply_progress (Txt_starting (length (users_json s))) # evs @
                          closing_events ev c b @ [Reply t]"
    and bc: "broadcasts_json s' =
               (if b then broadcasts_json s else broadcasts_json s @ [report ev actor m c])"
    using run_summary [OF r, of m] assms by auto
  have "new_events s s' = Reply_progress (Txt_starting (length (users_json s))) # evs @
                            closing_events ev c b @ [Reply t]"
    using tr by (rule new_events_append)
  then have "count_list (new_events s s') (Write_json BROADCASTS_FILE) = (if b then 0 else 1)"
    using loop_event_not_write [OF evs] by (simp add: closing_events_def)
  with bc tot show ?thesis by (simp add: report_def message_type_of_def)
qed

theorem report_written_witness:
  "broadcasts_json (snd (handle_broadcast_message blocked_env admin (Some photo_message)
          (ready_store [recipient 8, recipient 9, recipient 10]))) =
     [\<lparr>total_users = 3, successful = 2, blocked = 1, deleted = 0, unsuccessful = 0,
       admin_id = admin, message_type = ''photo'', sent_date = ''2024-02-02 12:00:00''\<rparr>] \<and>
   count_list
     (new_events (ready_store [recipient 8, recipient 9, recipient 10])
        (snd (handle_broadcast_message blocked_env admin (Some photo_message)
                (ready_store [recipient 8, recipient 9, recipient 10]))))
     (Write_json BROADCASTS_FILE) = 1 \<and>
   broadcasts_json (snd (handle_broadcast_message late_cancel_env admin (Some text_message)
          (ready_store [recipient 8, recipient 9]))) = [] \<and>
   count_list
     (new_events (ready_store [recipient 8, recipient 9])
        (snd (handle_broadcast_message late_cancel_env admin (Some text_message)
                (ready_store [recipient 8, recipient 9]))))
     (Write_json BROADCASTS_FILE) = 0"
proof -
  let ?s3 = "ready_store [recipient 8, recipient 9, recipient 10]"
  let ?r3 = "handle_broadcast_message blocked_env admin (Some photo_message) ?s3"
  let ?s2 = "ready_store [recipient 8, recipient 9]"
  let ?r2 = "handle_broadcast_message late_cancel_env admin (Some text_message) ?s2"
  have "fst ?r3 =
     Finished 3 \<lparr>total_users = 3, successful = 2, blocked = 1, deleted = 0, unsuccessful = 0\<rparr> False"
    by (simp add: eval_defs lower_defs blocked_env_def quiet_env_def admin_def photo_message_def
        ready_store_def recipient_def)
  then have r3: "?r3 = (Finished 3 \<lparr>total_users = 3, successful = 2, blocked = 1, deleted = 0,
                     unsuccessful = 0\<rparr> False, snd ?r3)"
    by (metis prod.collapse)
  have "fst ?r2 =
     Finished 1 \<lparr>total_users = 2, successful = 1, blocked = 0, deleted = 0, unsuccessful = 0\<rparr> True"
    by (simp add: eval_defs late_cancel_env_def quiet_env_def admin_def text_message_def
        ready_store_def recipient_def)
  then have r2: "?r2 = (Finished 1 \<lparr>total_users = 2, successful = 1, blocked = 0, deleted = 0,
                     unsuccessful = 0\<rparr> True, snd ?r2)"
    by (metis prod.collapse)
  have s3: "broadcasts_json ?s3 = []" "length (users_json ?s3) = 3"
    and s2: "broadcasts_json ?s2 = []"
    and e: "msg_photo photo_message \<noteq> []" "now blocked_env = ''2024-02-02 12:00:00''"
    by (simp_all add: ready_store_def broadcast_def ADMIN_IDS_def admin_def init_data_files_def
        photo_message_def blocked_env_def quiet_env_def)
  from report_written [OF r3] report_written [OF r2] s3 s2 e
  show ?thesis by simp
qed



subsection \<open>The cancellation flag at the start of a run\<close>

lemma deliver_first_event:
  assumes "delivery_kind m = Some k" and "deliver ev actor m i u (c, s) = (c1, s1)"
  shows "\<exists>evs. trace s1 = trace s @ Deliver (user_id u) k # evs"
proof -
  let ?s = "handle_requests actor (pending (during_send ev) i) (emit (Deliver (user_id u) k) s)"
  have "run_step (emit (Deliver (user_id u) k) s) ?s"
    by (rule run_step_requests)
  then obtain evs where "trace ?s = trace s @ Deliver (user_id u) k # evs"
    by (auto simp: run_step_def)
  with assms show ?thesis
    by (auto simp: deliver_def Let_def split: option.splits)
qed

lemma first_recipient:
  assumes "\<not> get_cancelled s0"
    and "broadcast_loop ev actor m n i (u # us) (c, s0) = (p, c', s')"
  shows "Suc i \<le> p \<and>
         (\<forall>k. delivery_kind m = Some k \<longrightarrow>
                (\<exists>evs. trace s' = trace s0 @ Deliver (user_id u) k # evs))"
proof -
  obtain c1 s1 where d: "deliver ev actor m i u (c, s0) = (c1, s1)"
    by (cases "deliver ev actor m i u (c, s0)")
  obtain c2 s2 where u: "update_progress ev actor n i (c1, s1) = (c2, s2)"
    by (cases "update_progress ev actor n i (c1, s1)")
  have rest: "broadcast_loop ev actor m n (Suc i) us (c2, s2) = (p, c', s')"
    using assms d u by simp
  note st = loop_step [OF rest]
  have "run_step s1 s'"
    using progress_step [OF u] st by (blast intro: run_step_trans)
  then obtain e1 where e1: "trace s' = trace s1 @ e1"
    by (auto simp: run_step_def)
  have "\<exists>evs. trace s' = trace s0 @ Deliver (user_id u) k # evs" if "delivery_kind m = Some k" for k
    using deliver_first_event [OF that d] e1 by auto
  with st show ?thesis by simp
qed

text \<open>
  Without \<^verbatim>\<open>update.message\<close> a call that got past the checks raises before the loop; the
  flags are set by then when there are users.
\<close>

lemma no_message_raises:
  assumes "awaiting_broadcast (session s) = Some True" and "actor \<in> set ADMIN_IDS"
  shows "fst (handle_broadcast_message ev actor None s) = Attribute_error"
  using assms by (simp add: handle_broadcast_message_def Let_def)

text \<open>
  Claim C9. For every call of the handler that gets past its checks, the result does not
  depend on the cancellation flag the session held before (a flag left set by an earlier
  cancellation included): the handler stores \<open>False\<close> before the loop. So, under the
  sequential dispatch of the program, every run (a call with a message whose progress
  message is created) finds the flag unset at the check before the first recipient,
  processes the first recipient (the delivery to it is attempted) and all the others, and
  ends not cancelled.
\<close>

theorem no_carry_over:
  assumes "awaiting_broadcast (session s) = Some True" and "actor \<in> set ADMIN_IDS"
    and "users_json s = u # us"
  shows "handle_broadcast_message ev actor mo
           (s\<lparr>session := (session s)\<lparr>broadcast_cancelled := x\<rparr>\<rparr>) =
         handle_broadcast_message ev actor mo s \<and>
         (sequential ev \<and> start_reply_ok ev \<longrightarrow>
            \<not> get_cancelled (run_start ev actor s) \<and>
            (\<exists>c s'. handle_broadcast_message ev actor (Some m) s =
                      (Finished (Suc (length us)) c False, s') \<and>
               (\<forall>k. delivery_kind m = Some k \<longrightarrow>
                      Deliver (user_id u) k \<in> set (new_events s s'))))"
proof (intro conjI impI)
  show "handle_broadcast_message ev actor mo
           (s\<lparr>session := (session s)\<lparr>broadcast_cancelled := x\<rparr>\<rparr>) =
         handle_broadcast_message ev actor mo s"
    using assms by (simp add: handle_broadcast_message_def Let_def split: option.splits)
next
  assume env: "sequential ev \<and> start_reply_ok ev"
  let ?n = "length (users_json s)"
  have r: "runs ev actor s"
    using assms env by (simp add: runs_def)
  have start: "\<not> get_cancelled (run_start ev actor s)"
    "trace (run_start ev actor s) = trace s @ [Reply_progress (Txt_starting ?n)]"
    using sequential_pending(1) [of ev] env
    by (simp_all add: run_start_def handle_requests_def get_cancelled_def)
  show "\<not> get_cancelled (run_start ev actor s)" by (rule start(1))
  obtain p c s4 where loop:
    "broadcast_loop ev actor m ?n 0 (u # us) (zero_counts ?n, run_start ev actor s) = (p, c, s4)"
    by (metis prod_cases3)
  note first = first_recipient [OF start(1) loop]
  have nc: "\<not> get_cancelled s4"
    using loop_quiet [OF _ start(1) loop] env by simp
  have p: "p = Suc (length us)"
    using loop_step [OF loop] nc by auto
  have "broadcast_in_progress (session s4) \<noteq> None"
    using loop_step [OF loop] start_props [of ev actor s] by (simp add: run_step_def)
  from finish_props [OF this] obtain t s' where fin:
    "finish_broadcast ev actor m (p, c, s4) = (Finished p c (get_cancelled s4), s')"
    "trace s' = trace s4 @ closing_events ev c (get_cancelled s4) @ [Reply t]"
    by blast
  have h: "handle_broadcast_message ev actor (Some m) s = (Finished (Suc (length us)) c False, s')"
    using handle_unfold [OF r] loop fin(1) assms(3) nc p by simp
  have "Deliver (user_id u) k \<in> set (new_events s s')" if kind: "delivery_kind m = Some k" for k
  proof -
    obtain evs where "trace s4 = trace (run_start ev actor s) @ Deliver (user_id u) k # evs"
      using first kind by blast
    then have "trace s' = trace s @ (Reply_progress (Txt_starting ?n) # Deliver (user_id u) k # evs @
                 closing_events ev c (get_cancelled s4) @ [Reply t])"
      using fin(2) start(2) by simp
    from new_events_append [OF this] show ?thesis by simp
  qed
  with h
  show "\<exists>c s'. handle_broadcast_message ev actor (Some m) s =
                 (Finished (Suc (length us)) c False, s') \<and>
               (\<forall>k. delivery_kind m = Some k \<longrightarrow>
                      Deliver (user_id u) k \<in> set (new_events s s'))"
    by auto
qed

theorem no_carry_over_witness:
  "broadcast_cancelled (session after_late_press) = Some True \<and>
   awaiting_broadcast (session after_late_press) = Some True \<and>
   admin \<in> set ADMIN_IDS \<and>
   users_json after_late_press = [recipient 8, recipient 9] \<and>
   sequential quiet_env \<and> start_reply_ok quiet_env \<and>
   handle_broadcast_message quiet_env admin (Some text_message)
     (after_late_press
        \<lparr>session := (session after_late_press)\<lparr>broadcast_cancelled := None\<rparr>\<rparr>) =
   handle_broadcast_message quiet_env admin (Some text_message) after_late_press \<and>
   \<not> get_cancelled (run_start quiet_env admin after_late_press) \<and>
   (\<exists>c s'. handle_broadcast_message quiet_env admin (Some text_message) after_late_press =
             (Finished 2 c False, s') \<and>
           Deliver 8 Text_content \<in> set (new_events after_late_press s'))"
proof -
  have h: "broadcast_cancelled (session after_late_press) = Some True"
    "awaiting_broadcast (session after_late_press) = Some True"
    "admin \<in> set ADMIN_IDS"
    "users_json after_late_press = [recipient 8, recipient 9]"
    "start_reply_ok quiet_env"
    by (simp_all add: after_late_press_def eval_defs quiet_env_def
        admin_def text_message_def ready_store_def recipient_def)
  have k: "delivery_kind text_message = Some Text_content" "user_id (recipient 8) = 8"
    by (simp_all add: delivery_kind_def text_message_def recipient_def)
  from no_carry_over [OF h(2) h(3) h(4), of quiet_env "Some text_message" None text_message]
    k h sequential_quiet
  show ?thesis by auto
qed

subsection \<open>Authorization of the cancellation actions\<close>

text \<open>
  Claim C4. The broadcast command rejects an actor outside \<^verbatim>\<open>ADMIN_IDS\<close>; the two
  cancellation handlers do not look at the actor. For the actor 999, who is not in the
  list, a press of the "Cancel Broadcast" button sets the cancellation flag of the session
  and edits the message to "Broadcast cancelled by admin.", and the cancel command answers
  "No broadcast to cancel." rather than the rejection.
\<close>

theorem cancellation_not_gated:
  "999 \<notin> set ADMIN_IDS \<and>
   broadcast 999 init_data_files = emit (Reply Txt_not_authorized) init_data_files \<and>
   button_handler 999 ''cancel_broadcast'' init_data_files =
     init_data_files
       \<lparr>session := (session init_data_files)\<lparr>broadcast_cancelled := Some True\<rparr>,
        trace := [Answer_query, Edit_query_message Txt_cancelled_by_admin]\<rparr> \<and>
   cancel_broadcast 999 init_data_files =
     emit (Reply Txt_no_broadcast_to_cancel) init_data_files"
  by (simp add: ADMIN_IDS_def broadcast_def button_handler_def cancel_broadcast_def
      init_data_files_def emit_def Let_def)

subsection \<open>The percentage shown\<close>

text \<open>
  The republications of a run, exactly: after the processed recipients whose index is
  divisible by 10 or is the last index of the list, in order, and nowhere else; each
  carries the number processed, the total, the percentage as the code computes it, and the
  successful and the failed deliveries so far. The final counters are the tally of the
  processed recipients.
\<close>

lemma silent_refl [simp]: "silent s s"
  by (simp add: silent_def)

lemma silent_trans: "silent s s1 \<Longrightarrow> silent s1 s2 \<Longrightarrow> silent s s2"
  by (auto simp: silent_def)

lemma silent_emit: "\<not> is_progress e \<Longrightarrow> silent s (emit e s)"
  by (simp add: silent_def)

lemma silent_request: "silent s (handle_request actor r s)"
  by (cases r)
    (auto simp: silent_def cancel_broadcast_def button_handler_def show_broadcast_stats_def
      Let_def split: option.splits)

lemma silent_requests: "silent s (handle_requests actor rs s)"
  unfolding handle_requests_def
proof (induction rs arbitrary: s)
  case Nil
  show ?case by simp
next
  case (Cons r rs)
  from silent_request [of s actor r] Cons.IH [of "handle_request actor r s"]
  show ?case by (simp add: silent_trans)
qed

lemma deliver_tally:
  assumes "deliver ev actor m i u (tally ev m i c0, s) = (c1, s1)"
  shows "c1 = tally ev m (Suc i) c0 \<and> silent s s1"
proof (cases "delivery_kind m")
  case None
  with assms show ?thesis by (auto simp: deliver_def)
next
  case (Some k)
  let ?s = "handle_requests actor (pending (during_send ev) i) (emit (Deliver (user_id u) k) s)"
  have q: "silent s ?s"
    by (rule silent_trans [OF silent_emit silent_requests]) simp
  then have "silent s (emit (Log (Err_sending (user_id u))) ?s)"
    by (rule silent_trans) (simp add: silent_emit)
  with q Some assms show ?thesis
    by (auto simp: deliver_def Let_def split: option.splits)
qed

lemma progress_published:
  assumes "update_progress ev actor n i (c, s) = (c1, s1)"
  shows "c1 = c \<and>
         (\<exists>evs. trace s1 = trace s @ evs \<and>
            filter is_progress evs =
              (if int i mod 10 = 0 \<or> int i = int n - 1
               then [Edit_progress
                       (Txt_progress (i + 1) (total_users c) (percentage (i + 1) (total_users c))
                          (successful c) (blocked c + deleted c + unsuccessful c)) True]
               else []))"
proof (cases "int i mod 10 = 0 \<or> int i = int n - 1")
  case False
  with assms show ?thesis by (auto simp: update_progress_def)
next
  case True
  let ?e = "Edit_progress (Txt_progress (i + 1) (total_users c) (percentage (i + 1) (total_users c))
              (successful c) (blocked c + deleted c + unsuccessful c)) True"
  let ?s1 = "s\<lparr>session := (session s)\<lparr>broadcast_stats := Some c\<rparr>\<rparr>"
  let ?s2 = "handle_requests actor (pending (during_edit ev) i) (emit ?e ?s1)"
  obtain e2 where e2: "trace ?s2 = trace (emit ?e ?s1) @ e2" "filter is_progress e2 = []"
    using silent_requests [of "emit ?e ?s1" actor "pending (during_edit ev) i"]
      by (auto simp: silent_def)
  have s1: "s1 = (if edit_ok ev i then ?s2 else emit (Log Err_progress) ?s2)" and "c1 = c"
    using assms True by (auto simp: update_progress_def Let_def split: if_splits)
  have "trace s1 = trace s @ (?e # e2 @ (if edit_ok ev i then [] else [Log Err_progress]))"
    using e2(1) by (simp add: s1)
  moreover have "filter is_progress (?e # e2 @ (if edit_ok ev i then [] else [Log Err_progress])) = [?e]"
    using e2(2) by simp
  ultimately show ?thesis
    using True \<open>c1 = c\<close> by (metis (no_types, lifting))
qed

lemma tally_total [simp]: "total_users (tally ev m k c) = total_users c"
  by (induction k) (simp_all add: Let_def accounted_count_failure split: option.splits)

lemma loop_schedule:
  assumes "broadcast_loop ev actor m n i us (tally ev m i (zero_counts N), s) = (p, c', s')"
  shows "c' = tally ev m p (zero_counts N) \<and>
         (\<exists>evs. trace s' = trace s @ evs \<and>
            filter is_progress evs =
              map (progress_at ev m N)
                (filter (\<lambda>j. int j mod 10 = 0 \<or> int j = int n - 1) [i..<p]))"
  using assms
proof (induction us arbitrary: i s)
  case Nil
  then show ?case by auto
next
  case (Cons u us)
  show ?case
  proof (cases "get_cancelled s")
    case True
    with Cons.prems show ?thesis by auto
  next
    case False
    let ?c = "tally ev m i (zero_counts N)"
    obtain c1 s1 where d: "deliver ev actor m i u (?c, s) = (c1, s1)"
      by (cases "deliver ev actor m i u (?c, s)")
    obtain c2 s2 where u: "update_progress ev actor n i (c1, s1) = (c2, s2)"
      by (cases "update_progress ev actor n i (c1, s1)")
    have c1: "c1 = tally ev m (Suc i) (zero_counts N)" and q: "silent s s1"
      using deliver_tally [OF d] by simp_all
    have c2: "c2 = c1"
      using progress_published [OF u] by simp
    have rest: "broadcast_loop ev actor m n (Suc i) us (tally ev m (Suc i) (zero_counts N), s2) = (p, c', s')"
      using Cons.prems False d u c1 c2 by simp
    have ip: "Suc i \<le> p"
      using loop_step [OF rest] by simp
    obtain e1 where e1: "trace s1 = trace s @ e1" "filter is_progress e1 = []"
      using q by (auto simp: silent_def)
    obtain e2 where e2: "trace s2 = trace s1 @ e2"
      "filter is_progress e2 =
         (if int i mod 10 = 0 \<or> int i = int n - 1 then [progress_at ev m N i] else [])"
      using progress_published [OF u] c1
      by (auto simp: progress_at_def zero_counts_def Let_def simp del: tally.simps)
    obtain e3 where e3: "trace s' = trace s2 @ e3"
      "filter is_progress e3 =
         map (progress_at ev m N)
           (filter (\<lambda>j. int j mod 10 = 0 \<or> int j = int n - 1) [Suc i..<p])"
      and c': "c' = tally ev m p (zero_counts N)"
      using Cons.IH [OF rest] by blast
    have "[i..<p] = i # [Suc i..<p]"
      using ip by (simp add: upt_conv_Cons)
    then have "filter is_progress (e1 @ e2 @ e3) =
         map (progress_at ev m N)
           (filter (\<lambda>j. int j mod 10 = 0 \<or> int j = int n - 1) [i..<p])"
      using e1(2) e2(2) e3(2) by simp
    moreover have "trace s' = trace s @ (e1 @ e2 @ e3)"
      using e1(1) e2(1) e3(1) by simp
    ultimately show ?thesis using c' by blast
  qed
qed

lemma progress_schedule:
  assumes "handle_broadcast_message ev actor (Some m) s = (Finished p c b, s')"
    and n: "n = length (users_json s)"
  shows "c = tally ev m p (zero_counts n) \<and>
         filter is_progress (new_events s s') =
           map (progress_at ev m n)
             (filter (\<lambda>j. int j mod 10 = 0 \<or> int j = int n - 1) [0..<p])"
proof -
  have r: "runs ev actor s"
    using handle_finished_runs [OF assms(1)] by blast
  obtain p' c' s4 where loop:
    "broadcast_loop ev actor m n 0 (users_json s) (tally ev m 0 (zero_counts n), run_start ev actor s) =
       (p', c', s4)"
    by (metis prod_cases3)
  have loop0: "broadcast_loop ev actor m n 0 (users_json s) (zero_counts n, run_start ev actor s) = (p', c', s4)"
    using loop by simp
  have "broadcast_in_progress (session s4) \<noteq> None"
    using loop_step [OF loop0] start_props [of ev actor s] by (simp add: run_step_def)
  from finish_props [OF this] obtain t s'' where fin:
    "finish_broadcast ev actor m (p', c', s4) = (Finished p' c' (get_cancelled s4), s'')"
    "trace s'' = trace s4 @ closing_events ev c' (get_cancelled s4) @ [Reply t]"
    by blast
  have eq: "p' = p" "c' = c" "s'' = s'"
    using handle_unfold [OF r, of m] loop0 fin(1) assms by simp_all
  obtain e0 where e0: "trace (run_start ev actor s) =
      trace (emit (Reply_progress (Txt_starting n))
               (s\<lparr>session := (session s)
                     \<lparr>awaiting_broadcast := None,
                      broadcast_stats := Some (zero_counts n),
                      broadcast_in_progress := Some True,
                      broadcast_cancelled := Some False\<rparr>\<rparr>)) @ e0"
    "filter is_progress e0 = []"
    using silent_requests [of _ actor "during_start ev"] unfolding run_start_def n silent_def
    by blast
  obtain e1 where e1: "trace s4 = trace (run_start ev actor s) @ e1"
    "filter is_progress e1 =
       map (progress_at ev m n) (filter (\<lambda>j. int j mod 10 = 0 \<or> int j = int n - 1) [0..<p'])"
    and c': "c' = tally ev m p' (zero_counts n)"
    using loop_schedule [OF loop] by blast
  have "trace s' = trace s @ (Reply_progress (Txt_starting n) # e0 @ e1 @
                    closing_events ev c' (get_cancelled s4) @ [Reply t])"
    using fin(2) e0(1) e1(1) eq by simp
  from new_events_append [OF this] e0(2) e1(2) c' eq show ?thesis
    by (simp add: closing_events_def)
qed

lemma tally_quiet:
  assumes "\<forall>i. send_error ev i = None"
  shows "tally ev m k (zero_counts n) = (zero_counts n)\<lparr>successful := k\<rparr>"
  using assms by (induction k) (simp_all add: zero_counts_def Let_def)

text \<open>
  Claim C8. In a run over 300 recipients in which every delivery succeeds and nobody
  cancels, the progress message is republished after the recipient at index 170 (an index
  divisible by 10) with 171 of 300, 171 successful, 0 failed and the percentage 56, while
  \<open>\<lfloor>171 / 300 \<times> 100\<rfloor> = 57\<close>: the double nearest to 171/300, times 100, rounds to a
  double just below 57, and \<^verbatim>\<open>int\<close> cuts it down to 56.
\<close>

theorem progress_percentage_171_of_300:
  "Edit_progress (Txt_progress 171 300 56 171 0) True \<in>
     set (new_events crowd
            (snd (handle_broadcast_message quiet_env admin (Some text_message) crowd))) \<and>
   (171 * 100) div 300 = (57 :: nat)"
proof -
  have len: "length (users_json crowd) = 300"
    by (simp add: crowd_def ready_store_def broadcast_def ADMIN_IDS_def admin_def)
  have r: "runs quiet_env admin crowd"
    by (simp add: runs_def crowd_def ready_store_def broadcast_def ADMIN_IDS_def admin_def
        quiet_env_def init_data_files_def)
  have q: "\<forall>i. send_error quiet_env i = None"
    by (simp add: quiet_env_def)
  obtain c s' where h: "handle_broadcast_message quiet_env admin (Some text_message) crowd =
                          (Finished 300 c False, s')"
    using quiet_run_completes [OF r sequential_quiet, of text_message] len by auto
  have sched: "filter is_progress (new_events crowd s') =
           map (progress_at quiet_env text_message 300)
             (filter (\<lambda>j. int j mod 10 = 0 \<or> int j = int 300 - 1) [0..<300])"
    using progress_schedule [OF h, of 300] len by simp
  have "percentage 171 300 = 56"
    by (simp add: percentage_def round_double_def Let_def)
  then have ev: "progress_at quiet_env text_message 300 170 =
                   Edit_progress (Txt_progress 171 300 56 171 0) True"
    unfolding progress_at_def tally_quiet [OF q]
    by (simp add: zero_counts_def)
  have "(170::nat) \<in> set (filter (\<lambda>j. int j mod 10 = 0 \<or> int j = int 300 - 1) [0..<300])"
    by simp
  then have "progress_at quiet_env text_message 300 170 \<in> set (filter is_progress (new_events crowd s'))"
    unfolding sched by (metis (no_types, lifting) image_eqI set_map)
  then have "Edit_progress (Txt_progress 171 300 56 171 0) True \<in> set (new_events crowd s')"
    using ev by simp
  with h show ?thesis by simp
qed

end
